theory Spec2Isabelle
  imports Main "HOL-Library.Word"
begin

unbundle bit_operations_syntax

section \<open>Porting interface\<close>

text \<open>
  The engines of easy_bootloader.c and easy_bootloader_app.c reach the hardware only
  through the boot_port functions. Every call that acts on the hardware is recorded as an
  event, in call order. The status a call returns is decided by the port, which may look
  at the whole history of calls up to and including the current one.
\<close>

type_synonym byte = "8 word"
type_synonym u16 = "16 word"
type_synonym u32 = "32 word"

datatype boot_port_status_t = BOOT_PORT_OK | BOOT_PORT_ERROR | BOOT_PORT_TIMEOUT

datatype boot_port_app_status_t = BOOT_PORT_APP_OK | BOOT_PORT_APP_ERROR

datatype event =
    FlashErase u32 u32
  | FlashWrite u32 "byte list"
  | UartWrite "byte list"
  | JumpToApp u32
  | SystemReset

type_synonym port = "event list \<Rightarrow> boot_port_status_t"
type_synonym app_port = "event list \<Rightarrow> boot_port_app_status_t"

definition boot_port_flash_erase ::
  "port \<Rightarrow> u32 \<Rightarrow> u32 \<Rightarrow> event list \<Rightarrow> boot_port_status_t \<times> event list" where
  "boot_port_flash_erase p addr sz tr = (p (tr @ [FlashErase addr sz]), tr @ [FlashErase addr sz])"

definition boot_port_flash_write ::
  "port \<Rightarrow> u32 \<Rightarrow> byte list \<Rightarrow> event list \<Rightarrow> boot_port_status_t \<times> event list" where
  "boot_port_flash_write p addr data tr = (p (tr @ [FlashWrite addr data]), tr @ [FlashWrite addr data])"

definition boot_port_uart_write ::
  "port \<Rightarrow> byte list \<Rightarrow> event list \<Rightarrow> boot_port_status_t \<times> event list" where
  "boot_port_uart_write p data tr = (p (tr @ [UartWrite data]), tr @ [UartWrite data])"

definition boot_port_jump_to_app :: "u32 \<Rightarrow> event list \<Rightarrow> event list" where
  "boot_port_jump_to_app app_addr tr = tr @ [JumpToApp app_addr]"

definition boot_port_system_reset :: "event list \<Rightarrow> event list" where
  "boot_port_system_reset tr = tr @ [SystemReset]"

definition boot_port_app_flash_erase ::
  "app_port \<Rightarrow> u32 \<Rightarrow> u32 \<Rightarrow> event list \<Rightarrow> boot_port_app_status_t \<times> event list" where
  "boot_port_app_flash_erase p addr sz tr = (p (tr @ [FlashErase addr sz]), tr @ [FlashErase addr sz])"

definition boot_port_app_flash_write ::
  "app_port \<Rightarrow> u32 \<Rightarrow> byte list \<Rightarrow> event list \<Rightarrow> boot_port_app_status_t \<times> event list" where
  "boot_port_app_flash_write p addr data tr =
     (p (tr @ [FlashWrite addr data]), tr @ [FlashWrite addr data])"

definition boot_port_app_uart_write ::
  "app_port \<Rightarrow> byte list \<Rightarrow> event list \<Rightarrow> boot_port_app_status_t \<times> event list" where
  "boot_port_app_uart_write p data tr = (p (tr @ [UartWrite data]), tr @ [UartWrite data])"

definition boot_port_app_system_reset :: "event list \<Rightarrow> event list" where
  "boot_port_app_system_reset tr = tr @ [SystemReset]"

text \<open>Flash contents as the read functions see them: one byte per address, words little-endian.\<close>

type_synonym flash = "u32 \<Rightarrow> byte"

definition read_u32 :: "flash \<Rightarrow> u32 \<Rightarrow> u32" where
  "read_u32 mem addr =
     ucast (mem addr) OR push_bit 8 (ucast (mem (addr + 1)))
       OR push_bit 16 (ucast (mem (addr + 2))) OR push_bit 24 (ucast (mem (addr + 3)))"

section \<open>Build configuration (boot_config.h, boot_config_app.h)\<close>

datatype boot_arch = BOOT_ARCH_ARM_CORTEX_M | BOOT_ARCH_RISCV

record boot_config =
  BOOT_ARCH :: boot_arch
  BOOT_APP_START_ADDR :: u32
  BOOT_APP_MAX_SIZE :: u32
  BOOT_FLAG_REGION_ADDR :: u32
  BOOT_FLAG_REGION_SIZE :: u32
  BOOT_FLAG_ERASED :: u32
  BOOT_SRAM_START_ADDR :: u32
  BOOT_SRAM_END_ADDR :: u32
  BOOT_HAS_CCM :: bool
  BOOT_CCM_START_ADDR :: u32
  BOOT_CCM_END_ADDR :: u32
  BOOT_PACKET_MAX_SIZE :: nat

definition BOOT_APP_END_ADDR :: "boot_config \<Rightarrow> u32" where
  "BOOT_APP_END_ADDR cfg = BOOT_APP_START_ADDR cfg + BOOT_APP_MAX_SIZE cfg - 1"

definition BOOT_FLAG_ADDR :: "boot_config \<Rightarrow> u32" where
  "BOOT_FLAG_ADDR cfg = BOOT_FLAG_REGION_ADDR cfg + 0x00"

definition BOOT_VERSION_ADDR :: "boot_config \<Rightarrow> u32" where
  "BOOT_VERSION_ADDR cfg = BOOT_FLAG_REGION_ADDR cfg + 0x04"

definition BOOT_DATE_ADDR :: "boot_config \<Rightarrow> u32" where
  "BOOT_DATE_ADDR cfg = BOOT_FLAG_REGION_ADDR cfg + 0x08"

definition BOOT_FLAG_BOOTLOADER :: u32 where "BOOT_FLAG_BOOTLOADER = 1"
definition BOOT_FLAG_APP :: u32 where "BOOT_FLAG_APP = 2"

definition BOOT_FRAME_FIXED_SIZE :: nat where "BOOT_FRAME_FIXED_SIZE = 11"

definition BOOT_PAYLOAD_MAX_SIZE :: "boot_config \<Rightarrow> nat" where
  "BOOT_PAYLOAD_MAX_SIZE cfg = BOOT_PACKET_MAX_SIZE cfg - BOOT_FRAME_FIXED_SIZE"

text \<open>The STM32F407 bootloader configuration (ARM Cortex-M, with CCM RAM).\<close>

definition stm32f4_config :: boot_config where
  "stm32f4_config = \<lparr>
     BOOT_ARCH = BOOT_ARCH_ARM_CORTEX_M,
     BOOT_APP_START_ADDR = 0x08010000,
     BOOT_APP_MAX_SIZE = 0x000D0000,
     BOOT_FLAG_REGION_ADDR = 0x080E0000,
     BOOT_FLAG_REGION_SIZE = 0x00020000,
     BOOT_FLAG_ERASED = 0xFFFFFFFF,
     BOOT_SRAM_START_ADDR = 0x20000000,
     BOOT_SRAM_END_ADDR = 0x20030000,
     BOOT_HAS_CCM = True,
     BOOT_CCM_START_ADDR = 0x10000000,
     BOOT_CCM_END_ADDR = 0x10010000,
     BOOT_PACKET_MAX_SIZE = 1013 \<rparr>"

text \<open>The CH32V307 bootloader configuration (RISC-V, no CCM RAM; the CCM bounds are unused).\<close>

definition ch32v307_config :: boot_config where
  "ch32v307_config = \<lparr>
     BOOT_ARCH = BOOT_ARCH_RISCV,
     BOOT_APP_START_ADDR = 0x00006000,
     BOOT_APP_MAX_SIZE = 0x00039800,
     BOOT_FLAG_REGION_ADDR = 0x0003F800,
     BOOT_FLAG_REGION_SIZE = 0x00000800,
     BOOT_FLAG_ERASED = 0xE339E339,
     BOOT_SRAM_START_ADDR = 0x20000000,
     BOOT_SRAM_END_ADDR = 0x2000FFFF,
     BOOT_HAS_CCM = False,
     BOOT_CCM_START_ADDR = 0,
     BOOT_CCM_END_ADDR = 0,
     BOOT_PACKET_MAX_SIZE = 1024 \<rparr>"

record boot_app_config =
  BOOT_APP_FLAG_REGION_ADDR :: u32
  BOOT_APP_FLAG_REGION_SIZE :: u32

definition BOOT_APP_FLAG_ADDR :: "boot_app_config \<Rightarrow> u32" where
  "BOOT_APP_FLAG_ADDR acfg = BOOT_APP_FLAG_REGION_ADDR acfg + 0x00"

definition BOOT_APP_VERSION_ADDR :: "boot_app_config \<Rightarrow> u32" where
  "BOOT_APP_VERSION_ADDR acfg = BOOT_APP_FLAG_REGION_ADDR acfg + 0x04"

definition BOOT_APP_DATE_ADDR :: "boot_app_config \<Rightarrow> u32" where
  "BOOT_APP_DATE_ADDR acfg = BOOT_APP_FLAG_REGION_ADDR acfg + 0x08"

definition ch32v307_app_config :: boot_app_config where
  "ch32v307_app_config = \<lparr>
     BOOT_APP_FLAG_REGION_ADDR = 0x0003F800,
     BOOT_APP_FLAG_REGION_SIZE = 0x00000800 \<rparr>"

definition g_boot_ack :: "byte list" where
  "g_boot_ack = [0x55, 0xAA, 0xFF, 0xFE, 0x55, 0x55]"

section \<open>Flag region manager\<close>

text \<open>The four bytes the code stores into buf[0..3] before each word write.\<close>

definition word_buf :: "u32 \<Rightarrow> byte list" where
  "word_buf x =
     [ucast (x AND 0xFF), ucast (drop_bit 8 x AND 0xFF),
      ucast (drop_bit 16 x AND 0xFF), ucast (drop_bit 24 x AND 0xFF)]"

definition bootloader_write_flag_region ::
  "boot_config \<Rightarrow> port \<Rightarrow> u32 \<Rightarrow> u32 \<Rightarrow> u32 \<Rightarrow> event list \<Rightarrow> boot_port_status_t \<times> event list" where
  "bootloader_write_flag_region cfg p flag version date tr =
     (case boot_port_flash_erase p (BOOT_FLAG_REGION_ADDR cfg) (BOOT_FLAG_REGION_SIZE cfg) tr of
        (status, tr1) \<Rightarrow>
          if status \<noteq> BOOT_PORT_OK then (status, tr1)
          else (case boot_port_flash_write p (BOOT_FLAG_ADDR cfg) (word_buf flag) tr1 of
            (status, tr2) \<Rightarrow>
              if status \<noteq> BOOT_PORT_OK then (status, tr2)
              else (case boot_port_flash_write p (BOOT_VERSION_ADDR cfg) (word_buf version) tr2 of
                (status, tr3) \<Rightarrow>
                  if status \<noteq> BOOT_PORT_OK then (status, tr3)
                  else boot_port_flash_write p (BOOT_DATE_ADDR cfg) (word_buf date) tr3)))"

text \<open>
  app_write_flag_region of easy_bootloader_app.c. The block that fills buf with the date is
  there twice, and so is the write to BOOT_APP_DATE_ADDR: once with a status check, once as
  the returned call.
\<close>

definition app_write_flag_region ::
  "boot_app_config \<Rightarrow> app_port \<Rightarrow> u32 \<Rightarrow> u32 \<Rightarrow> u32 \<Rightarrow> event list
     \<Rightarrow> boot_port_app_status_t \<times> event list" where
  "app_write_flag_region acfg p flag version date tr =
     (case boot_port_app_flash_erase p (BOOT_APP_FLAG_REGION_ADDR acfg)
              (BOOT_APP_FLAG_REGION_SIZE acfg) tr of
        (status, tr1) \<Rightarrow>
          if status \<noteq> BOOT_PORT_APP_OK then (status, tr1)
          else (case boot_port_app_flash_write p (BOOT_APP_FLAG_ADDR acfg) (word_buf flag) tr1 of
            (status, tr2) \<Rightarrow>
              if status \<noteq> BOOT_PORT_APP_OK then (status, tr2)
              else (case boot_port_app_flash_write p (BOOT_APP_VERSION_ADDR acfg)
                           (word_buf version) tr2 of
                (status, tr3) \<Rightarrow>
                  if status \<noteq> BOOT_PORT_APP_OK then (status, tr3)
                  else (case boot_port_app_flash_write p (BOOT_APP_DATE_ADDR acfg)
                               (word_buf date) tr3 of
                    (status, tr4) \<Rightarrow>
                      if status \<noteq> BOOT_PORT_APP_OK then (status, tr4)
                      else boot_port_app_flash_write p (BOOT_APP_DATE_ADDR acfg)
                             (word_buf date) tr4))))"

section \<open>Bootloader engine context\<close>

datatype boot_state_t = BOOT_STATE_IDLE | BOOT_STATE_RECEIVING | BOOT_STATE_WAIT_FINISH

text \<open>
  bootloader_context_t. rx_cache holds the rx_cache_len valid bytes of the receive array
  (rx_cache_len is its length; the array's capacity is BOOT_PACKET_MAX_SIZE, at most 1024,
  so the uint16_t length never wraps). payload_buf and stream_cache are whole arrays.
  stream_cache_len is a uint8_t that the code keeps between 0 and 4. The state field
  exists in the STM32F4 copy of easy_bootloader.c only.
\<close>

record bootloader_context_t =
  rx_cache :: "byte list"
  payload_buf :: "byte list"
  current_addr :: u32
  stream_cache :: "byte list"
  stream_cache_len :: nat
  boot_flag :: u32
  app_version :: u32
  update_date :: u32
  state :: boot_state_t
  download_active :: bool
  initialized :: bool

text \<open>bootloader_reset_context of easy_bootloader_compoents: memset to zero, cursor at the region start.\<close>

definition bootloader_reset_context :: "boot_config \<Rightarrow> bootloader_context_t" where
  "bootloader_reset_context cfg = \<lparr>
     rx_cache = [],
     payload_buf = replicate (BOOT_PAYLOAD_MAX_SIZE cfg) 0,
     current_addr = BOOT_APP_START_ADDR cfg,
     stream_cache = replicate 4 0,
     stream_cache_len = 0,
     boot_flag = 0,
     app_version = 0,
     update_date = 0,
     state = BOOT_STATE_IDLE,
     download_active = False,
     initialized = False \<rparr>"

text \<open>The STM32F4 copy keeps the initialized flag across the reset.\<close>

definition bootloader_reset_context_stm32 ::
  "boot_config \<Rightarrow> bootloader_context_t \<Rightarrow> bootloader_context_t" where
  "bootloader_reset_context_stm32 cfg ctx =
     (bootloader_reset_context cfg)\<lparr>state := BOOT_STATE_IDLE, initialized := initialized ctx\<rparr>"

definition bootloader_read_flag_region ::
  "boot_config \<Rightarrow> flash \<Rightarrow> bootloader_context_t \<Rightarrow> bootloader_context_t" where
  "bootloader_read_flag_region cfg mem ctx =
     ctx\<lparr>boot_flag := read_u32 mem (BOOT_FLAG_ADDR cfg),
         app_version := read_u32 mem (BOOT_VERSION_ADDR cfg),
         update_date := read_u32 mem (BOOT_DATE_ADDR cfg)\<rparr>"

section \<open>Image validity checker and power-on initialization\<close>

definition bootloader_check_app_valid :: "boot_config \<Rightarrow> flash \<Rightarrow> bool" where
  "bootloader_check_app_valid cfg mem =
     (let app_word0 = read_u32 mem (BOOT_APP_START_ADDR cfg);
          app_word1 = read_u32 mem (BOOT_APP_START_ADDR cfg + 4)
      in case BOOT_ARCH cfg of
           BOOT_ARCH_ARM_CORTEX_M \<Rightarrow>
             (let app_stack = app_word0;
                  app_reset = app_word1;
                  stack_valid0 = (app_stack \<ge> BOOT_SRAM_START_ADDR cfg
                                   \<and> app_stack \<le> BOOT_SRAM_END_ADDR cfg);
                  stack_valid =
                    (if BOOT_HAS_CCM cfg \<and> \<not> stack_valid0
                     then app_stack \<ge> BOOT_CCM_START_ADDR cfg \<and> app_stack \<le> BOOT_CCM_END_ADDR cfg
                     else stack_valid0)
              in if \<not> stack_valid then False
                 else if app_reset < BOOT_APP_START_ADDR cfg \<or> app_reset > BOOT_APP_END_ADDR cfg
                   then False
                 else if app_reset AND 1 = 0 then False
                 else if app_stack = BOOT_FLAG_ERASED cfg \<or> app_reset = BOOT_FLAG_ERASED cfg
                   then False
                 else True)
         | BOOT_ARCH_RISCV \<Rightarrow>
             (let app_first_word = app_word0;
                  app_entry = app_word1
              in if app_entry < BOOT_APP_START_ADDR cfg \<or> app_entry > BOOT_APP_END_ADDR cfg
                   then False
                 else if app_entry AND 1 \<noteq> 0 then False
                 else if app_first_word = BOOT_FLAG_ERASED cfg \<or> app_entry = BOOT_FLAG_ERASED cfg
                   then False
                 else True))"

text \<open>
  easy_bootloader_init runs once at power-on, on the zeroed static context. It returns the
  context and the port events it caused. If boot_port_jump_to_app returns, the code goes on
  and marks the context initialized; the model does the same.
\<close>

definition easy_bootloader_init :: "boot_config \<Rightarrow> flash \<Rightarrow> bootloader_context_t \<times> event list" where
  "easy_bootloader_init cfg mem =
     (let ctx = bootloader_read_flag_region cfg mem (bootloader_reset_context cfg);
          should_jump =
            (if boot_flag ctx = BOOT_FLAG_BOOTLOADER then False
             else if bootloader_check_app_valid cfg mem then
               (if boot_flag ctx = BOOT_FLAG_APP then True
                else if boot_flag ctx = BOOT_FLAG_ERASED cfg then False
                else False)
             else False);
          tr = (if should_jump then boot_port_jump_to_app (BOOT_APP_START_ADDR cfg) [] else [])
      in (ctx\<lparr>initialized := True\<rparr>, tr))"

section \<open>Frame codec\<close>

text \<open>
  bootloader_poll_uart: rx is what boot_port_uart_read has to deliver on this poll; the
  call is given the free space of the cache as its limit.
\<close>

definition bootloader_poll_uart ::
  "boot_config \<Rightarrow> byte list \<Rightarrow> bootloader_context_t \<Rightarrow> bootloader_context_t" where
  "bootloader_poll_uart cfg rx ctx =
     (let space = BOOT_PACKET_MAX_SIZE cfg - length (rx_cache ctx)
      in if space = 0 then ctx
         else ctx\<lparr>rx_cache := rx_cache ctx @ take space rx\<rparr>)"

definition bootloader_consume_cache :: "nat \<Rightarrow> bootloader_context_t \<Rightarrow> bootloader_context_t" where
  "bootloader_consume_cache count ctx =
     (if count \<ge> length (rx_cache ctx) then ctx\<lparr>rx_cache := []\<rparr>
      else ctx\<lparr>rx_cache := drop count (rx_cache ctx)\<rparr>)"

text \<open>The checksum loop: idx runs from 5 up to checksum_pos, adding into a uint16_t.\<close>

definition calc_crc :: "byte list \<Rightarrow> nat \<Rightarrow> u16" where
  "calc_crc cache checksum_pos = foldl (\<lambda>crc idx. crc + ucast (cache ! idx)) 0 [5..<checksum_pos]"

text \<open>
  bootloader_try_extract_frame, the same in both copies of easy_bootloader.c. Each round
  of the while loop is one unfolding; the result is None for "return false" and
  Some (remaining, payload_len) for "return true".
\<close>

function bootloader_try_extract_frame ::
  "boot_config \<Rightarrow> bootloader_context_t \<Rightarrow> (u32 \<times> u16) option \<times> bootloader_context_t" where
  "bootloader_try_extract_frame cfg ctx =
     (if length (rx_cache ctx) < BOOT_FRAME_FIXED_SIZE then (None, ctx)
      else if rx_cache ctx ! 0 \<noteq> 0x55 \<or> rx_cache ctx ! 1 \<noteq> 0xAA
        then bootloader_try_extract_frame cfg (bootloader_consume_cache 1 ctx)
      else
        let remain = (push_bit 16 (ucast (rx_cache ctx ! 2)) OR push_bit 8 (ucast (rx_cache ctx ! 3))
                        OR ucast (rx_cache ctx ! 4) :: u32);
            packet_len = (push_bit 8 (ucast (rx_cache ctx ! 5)) OR ucast (rx_cache ctx ! 6) :: u16)
        in if unat packet_len > BOOT_PAYLOAD_MAX_SIZE cfg
             then bootloader_try_extract_frame cfg (bootloader_consume_cache 2 ctx)
           else
             let frame_size = BOOT_FRAME_FIXED_SIZE + unat packet_len
             in if length (rx_cache ctx) < frame_size then (None, ctx)
                else
                  let checksum_pos = 7 + unat packet_len;
                      tail_pos = checksum_pos + 2
                  in if tail_pos + 1 \<ge> frame_size
                       then bootloader_try_extract_frame cfg (bootloader_consume_cache 2 ctx)
                     else
                       let received_crc = (push_bit 8 (ucast (rx_cache ctx ! checksum_pos))
                                             OR ucast (rx_cache ctx ! (checksum_pos + 1)) :: u16)
                       in if calc_crc (rx_cache ctx) checksum_pos \<noteq> received_crc
                              \<or> rx_cache ctx ! tail_pos \<noteq> 0x55
                              \<or> rx_cache ctx ! (tail_pos + 1) \<noteq> 0x55
                            then bootloader_try_extract_frame cfg (bootloader_consume_cache 2 ctx)
                          else
                            (Some (remain, packet_len),
                             bootloader_consume_cache frame_size
                               (if packet_len > 0
                                then ctx\<lparr>payload_buf :=
                                       take (unat packet_len) (drop 7 (rx_cache ctx))
                                         @ drop (unat packet_len) (payload_buf ctx)\<rparr>
                                else ctx)))"
  by pat_completeness auto
termination
  by (relation "measure (\<lambda>(cfg, ctx). length (rx_cache ctx))")
     (auto simp: bootloader_consume_cache_def BOOT_FRAME_FIXED_SIZE_def)

declare bootloader_try_extract_frame.simps [simp del]

text \<open>bootloader_try_extract_finish_frame (STM32F4 copy): 55 AA ver[4] date[4] FF FD 55 55.\<close>

definition BOOT_FINISH_FRAME_LEN :: nat where "BOOT_FINISH_FRAME_LEN = 14"

definition be_u32 :: "byte \<Rightarrow> byte \<Rightarrow> byte \<Rightarrow> byte \<Rightarrow> u32" where
  "be_u32 b0 b1 b2 b3 =
     push_bit 24 (ucast b0) OR push_bit 16 (ucast b1) OR push_bit 8 (ucast b2) OR ucast b3"

function bootloader_try_extract_finish_frame ::
  "bootloader_context_t \<Rightarrow> (u32 \<times> u32) option \<times> bootloader_context_t" where
  "bootloader_try_extract_finish_frame ctx =
     (if length (rx_cache ctx) < BOOT_FINISH_FRAME_LEN then (None, ctx)
      else if rx_cache ctx ! 0 \<noteq> 0x55 \<or> rx_cache ctx ! 1 \<noteq> 0xAA
        then bootloader_try_extract_finish_frame (bootloader_consume_cache 1 ctx)
      else if rx_cache ctx ! 10 = 0xFF \<and> rx_cache ctx ! 11 = 0xFD
                \<and> rx_cache ctx ! 12 = 0x55 \<and> rx_cache ctx ! 13 = 0x55
        then (Some (be_u32 (rx_cache ctx ! 2) (rx_cache ctx ! 3) (rx_cache ctx ! 4) (rx_cache ctx ! 5),
                    be_u32 (rx_cache ctx ! 6) (rx_cache ctx ! 7) (rx_cache ctx ! 8) (rx_cache ctx ! 9)),
              bootloader_consume_cache BOOT_FINISH_FRAME_LEN ctx)
      else bootloader_try_extract_finish_frame (bootloader_consume_cache 2 ctx))"
  by pat_completeness auto
termination
  by (relation "measure (\<lambda>ctx. length (rx_cache ctx))")
     (auto simp: bootloader_consume_cache_def BOOT_FINISH_FRAME_LEN_def)

declare bootloader_try_extract_finish_frame.simps [simp del]

section \<open>Flash stream writer\<close>

text \<open>
  The top-up loop of bootloader_stream_write:
  while (stream_cache_len < 4 && offset < len) stream_cache[stream_cache_len++] = data[offset++].
\<close>

function fill_stream_cache :: "byte list \<Rightarrow> byte list \<Rightarrow> nat \<Rightarrow> nat \<Rightarrow> byte list \<times> nat \<times> nat" where
  "fill_stream_cache data cache cache_len offset =
     (if cache_len < 4 \<and> offset < length data
      then fill_stream_cache data (cache[cache_len := data ! offset]) (Suc cache_len) (Suc offset)
      else (cache, cache_len, offset))"
  by pat_completeness auto
termination
  by (relation "measure (\<lambda>(data, cache, cache_len, offset). length data - offset)") auto

declare fill_stream_cache.simps [simp del]

text \<open>
  bootloader_stream_write(data, len), the same in both copies. The buffer and its length
  are one byte list; len is a uint32_t, so the list stands for a buffer of less than 2^32
  bytes. offset, remaining and aligned never exceed len. The function is written as its
  three blocks; Inl is a return from inside the block.
\<close>

definition stream_write_carry ::
  "port \<Rightarrow> byte list \<Rightarrow> bootloader_context_t \<times> event list
     \<Rightarrow> (boot_port_status_t \<times> bootloader_context_t \<times> event list)
         + (bootloader_context_t \<times> event list \<times> nat)" where
  "stream_write_carry p data s =
     (case s of (ctx, tr) \<Rightarrow>
        if stream_cache_len ctx > 0 then
          (case fill_stream_cache data (stream_cache ctx) (stream_cache_len ctx) 0 of
             (cache, cache_len, offset) \<Rightarrow>
               let ctx1 = ctx\<lparr>stream_cache := cache, stream_cache_len := cache_len\<rparr>
               in if cache_len = 4 then
                    (case boot_port_flash_write p (current_addr ctx1) (take 4 (stream_cache ctx1)) tr of
                       (status, tr1) \<Rightarrow>
                         if status \<noteq> BOOT_PORT_OK then Inl (status, ctx1, tr1)
                         else Inr (ctx1\<lparr>current_addr := current_addr ctx1 + 4,
                                        stream_cache_len := 0\<rparr>, tr1, offset))
                  else Inr (ctx1, tr, offset))
        else Inr (ctx, tr, 0))"

definition stream_write_aligned ::
  "port \<Rightarrow> byte list \<Rightarrow> bootloader_context_t \<times> event list \<times> nat
     \<Rightarrow> (boot_port_status_t \<times> bootloader_context_t \<times> event list)
         + (bootloader_context_t \<times> event list \<times> nat \<times> nat)" where
  "stream_write_aligned p data s =
     (case s of (ctx, tr, offset) \<Rightarrow>
        let remaining = length data - offset;
            aligned = unat ((of_nat remaining :: u32) AND NOT 3)
        in if aligned > 0 then
             (case boot_port_flash_write p (current_addr ctx) (take aligned (drop offset data)) tr of
                (status, tr1) \<Rightarrow>
                  if status \<noteq> BOOT_PORT_OK then Inl (status, ctx, tr1)
                  else Inr (ctx\<lparr>current_addr := current_addr ctx + of_nat aligned\<rparr>, tr1,
                            offset + aligned, remaining - aligned))
           else Inr (ctx, tr, offset, remaining))"

definition stream_write_tail ::
  "byte list \<Rightarrow> bootloader_context_t \<times> event list \<times> nat \<times> nat
     \<Rightarrow> boot_port_status_t \<times> bootloader_context_t \<times> event list" where
  "stream_write_tail data s =
     (case s of (ctx, tr, offset, remaining) \<Rightarrow>
        if remaining > 0 then
          (BOOT_PORT_OK,
           ctx\<lparr>stream_cache := take remaining (drop offset data) @ drop remaining (stream_cache ctx),
               stream_cache_len := remaining\<rparr>, tr)
        else (BOOT_PORT_OK, ctx, tr))"

definition bootloader_stream_write ::
  "port \<Rightarrow> byte list \<Rightarrow> bootloader_context_t \<times> event list
     \<Rightarrow> boot_port_status_t \<times> bootloader_context_t \<times> event list" where
  "bootloader_stream_write p data s =
     (if length data = 0 then (BOOT_PORT_OK, fst s, snd s)
      else (case stream_write_carry p data s of
              Inl r \<Rightarrow> r
            | Inr s1 \<Rightarrow>
                (case stream_write_aligned p data s1 of
                   Inl r \<Rightarrow> r
                 | Inr s2 \<Rightarrow> stream_write_tail data s2)))"

definition bootloader_stream_flush ::
  "port \<Rightarrow> bootloader_context_t \<times> event list
     \<Rightarrow> boot_port_status_t \<times> bootloader_context_t \<times> event list" where
  "bootloader_stream_flush p s =
     (case s of (ctx, tr) \<Rightarrow>
        if stream_cache_len ctx = 0 then (BOOT_PORT_OK, ctx, tr)
        else
          let padded = take (stream_cache_len ctx) (stream_cache ctx)
                         @ replicate (4 - stream_cache_len ctx) 0xFF
          in (case boot_port_flash_write p (current_addr ctx) padded tr of
                (status, tr1) \<Rightarrow>
                  if status = BOOT_PORT_OK
                  then (status, ctx\<lparr>current_addr := current_addr ctx + 4, stream_cache_len := 0\<rparr>, tr1)
                  else (status, ctx, tr1)))"

section \<open>Bootloader engine\<close>

definition bootloader_prepare_download ::
  "boot_config \<Rightarrow> port \<Rightarrow> bootloader_context_t \<times> event list
     \<Rightarrow> boot_port_status_t \<times> bootloader_context_t \<times> event list" where
  "bootloader_prepare_download cfg p s =
     (case s of (ctx, tr) \<Rightarrow>
        if download_active ctx then (BOOT_PORT_OK, ctx, tr)
        else (case boot_port_flash_erase p (BOOT_APP_START_ADDR cfg) (BOOT_APP_MAX_SIZE cfg) tr of
                (status, tr1) \<Rightarrow>
                  if status \<noteq> BOOT_PORT_OK then (status, ctx, tr1)
                  else (BOOT_PORT_OK,
                        ctx\<lparr>current_addr := BOOT_APP_START_ADDR cfg, stream_cache_len := 0,
                            download_active := True\<rparr>, tr1)))"

text \<open>The range check of bootloader_handle_payload, in uint32_t arithmetic.\<close>

definition flash_range_overflow :: "boot_config \<Rightarrow> bootloader_context_t \<Rightarrow> u16 \<Rightarrow> bool" where
  "flash_range_overflow cfg ctx payload_len =
     (let future_bytes = (of_nat (stream_cache_len ctx) + ucast payload_len :: u32);
          worst_case = (future_bytes + 3) AND NOT 3
      in current_addr ctx + worst_case > BOOT_APP_START_ADDR cfg + BOOT_APP_MAX_SIZE cfg)"

text \<open>
  bootloader_handle_payload of easy_bootloader_compoents/src/easy_bootloader.c: on the last
  frame it flushes, writes the flag region, sends the Ack and resets.
\<close>

definition bootloader_handle_payload ::
  "boot_config \<Rightarrow> port \<Rightarrow> u32 \<Rightarrow> u16 \<Rightarrow> bootloader_context_t \<times> event list
     \<Rightarrow> boot_port_status_t \<times> bootloader_context_t \<times> event list" where
  "bootloader_handle_payload cfg p remaining payload_len s =
     (case bootloader_prepare_download cfg p s of
        (status, ctx1, tr1) \<Rightarrow>
          if status \<noteq> BOOT_PORT_OK then (status, ctx1, tr1)
          else if flash_range_overflow cfg ctx1 payload_len then (BOOT_PORT_ERROR, ctx1, tr1)
          else (case bootloader_stream_write p (take (unat payload_len) (payload_buf ctx1)) (ctx1, tr1) of
            (status, ctx2, tr2) \<Rightarrow>
              if status \<noteq> BOOT_PORT_OK then (status, ctx2, tr2)
              else if remaining = 0 then
                (case bootloader_stream_flush p (ctx2, tr2) of
                   (status, ctx3, tr3) \<Rightarrow>
                     if status = BOOT_PORT_OK then
                       (let ctx4 = ctx3\<lparr>download_active := False\<rparr>
                        in case bootloader_write_flag_region cfg p BOOT_FLAG_APP
                                  (app_version ctx4) (update_date ctx4) tr3 of
                             (status, tr4) \<Rightarrow>
                               if status = BOOT_PORT_OK
                               then (status, ctx4,
                                     boot_port_system_reset (snd (boot_port_uart_write p g_boot_ack tr4)))
                               else (status, ctx4, tr4))
                     else (status, ctx3, tr3))
              else (status, ctx2, snd (boot_port_uart_write p g_boot_ack tr2))))"

text \<open>
  bootloader_handle_payload of the STM32F4 copy: the state machine version. The Ack is
  sent on every frame whose handling succeeded, the last one included.
\<close>

definition bootloader_handle_payload_stm32 ::
  "boot_config \<Rightarrow> port \<Rightarrow> u32 \<Rightarrow> u16 \<Rightarrow> bootloader_context_t \<times> event list
     \<Rightarrow> boot_port_status_t \<times> bootloader_context_t \<times> event list" where
  "bootloader_handle_payload_stm32 cfg p remaining payload_len s =
     (case bootloader_prepare_download cfg p s of
        (status, ctx0, tr1) \<Rightarrow>
          if status \<noteq> BOOT_PORT_OK then (status, ctx0, tr1)
          else
            let ctx1 = ctx0\<lparr>state := BOOT_STATE_RECEIVING\<rparr>
            in if flash_range_overflow cfg ctx1 payload_len then (BOOT_PORT_ERROR, ctx1, tr1)
               else (case bootloader_stream_write p (take (unat payload_len) (payload_buf ctx1))
                            (ctx1, tr1) of
                 (status, ctx2, tr2) \<Rightarrow>
                   if status \<noteq> BOOT_PORT_OK then (status, ctx2, tr2)
                   else (case (if remaining = 0 then
                                 (case bootloader_stream_flush p (ctx2, tr2) of
                                    (status, ctx3, tr3) \<Rightarrow>
                                      if status = BOOT_PORT_OK
                                      then (status, ctx3\<lparr>download_active := False,
                                                         state := BOOT_STATE_WAIT_FINISH\<rparr>, tr3)
                                      else (status, ctx3, tr3))
                               else (status, ctx2, tr2)) of
                     (status, ctx4, tr4) \<Rightarrow>
                       if status = BOOT_PORT_OK
                       then (status, ctx4, snd (boot_port_uart_write p g_boot_ack tr4))
                       else (status, ctx4, tr4))))"

definition bootloader_handle_finish_frame ::
  "boot_config \<Rightarrow> port \<Rightarrow> u32 \<Rightarrow> u32 \<Rightarrow> bootloader_context_t \<times> event list
     \<Rightarrow> boot_port_status_t \<times> bootloader_context_t \<times> event list" where
  "bootloader_handle_finish_frame cfg p version date s =
     (case s of (ctx, tr) \<Rightarrow>
        if state ctx \<noteq> BOOT_STATE_WAIT_FINISH then (BOOT_PORT_ERROR, ctx, tr)
        else (case bootloader_write_flag_region cfg p BOOT_FLAG_APP version date tr of
                (status, tr1) \<Rightarrow>
                  if status \<noteq> BOOT_PORT_OK then (status, ctx, tr1)
                  else (BOOT_PORT_OK, ctx,
                        boot_port_system_reset (snd (boot_port_uart_write p g_boot_ack tr1)))))"

text \<open>
  The poll loop of easy_bootloader_run (STM32F4 copy) ends because every extracted frame
  shortens the cache and the payload handler leaves the cache alone.
\<close>

lemma extract_shrinks:
  "bootloader_try_extract_frame cfg ctx = (Some x, ctx')
     \<Longrightarrow> length (rx_cache ctx') + BOOT_FRAME_FIXED_SIZE + unat (snd x) \<le> length (rx_cache ctx)"
proof (induction "length (rx_cache ctx)" arbitrary: ctx rule: less_induct)
  case less
  have IH: "length (rx_cache ctx') + BOOT_FRAME_FIXED_SIZE + unat (snd x) \<le> length (rx_cache ctx) - k"
    if "bootloader_try_extract_frame cfg (bootloader_consume_cache k ctx) = (Some x, ctx')"
      and "0 < k" and "k < length (rx_cache ctx)" for k
    using less.hyps[of "bootloader_consume_cache k ctx"] that
    by (simp add: bootloader_consume_cache_def)
  show ?case
    using less.prems
    apply (subst (asm) bootloader_try_extract_frame.simps)
    apply (auto simp: Let_def BOOT_FRAME_FIXED_SIZE_def split: if_splits dest!: IH)
    apply (auto simp: bootloader_consume_cache_def BOOT_FRAME_FIXED_SIZE_def split: if_splits)
    done
qed

lemma stream_write_rx_cache:
  "bootloader_stream_write p data (ctx, tr) = (st, ctx', tr') \<Longrightarrow> rx_cache ctx' = rx_cache ctx"
  by (auto simp: bootloader_stream_write_def stream_write_carry_def stream_write_aligned_def
      stream_write_tail_def Let_def split: if_splits prod.splits sum.splits)

lemma stream_flush_rx_cache:
  "bootloader_stream_flush p (ctx, tr) = (st, ctx', tr') \<Longrightarrow> rx_cache ctx' = rx_cache ctx"
  by (auto simp: bootloader_stream_flush_def Let_def split: if_splits prod.splits)

lemma prepare_rx_cache:
  "bootloader_prepare_download cfg p (ctx, tr) = (st, ctx', tr') \<Longrightarrow> rx_cache ctx' = rx_cache ctx"
  by (auto simp: bootloader_prepare_download_def split: if_splits prod.splits)

lemma handle_payload_stm32_rx_cache:
  "bootloader_handle_payload_stm32 cfg p r l (ctx, tr) = (st, ctx', tr') \<Longrightarrow> rx_cache ctx' = rx_cache ctx"
  unfolding bootloader_handle_payload_stm32_def Let_def
  by (auto split: if_splits prod.splits dest!: stream_write_rx_cache stream_flush_rx_cache prepare_rx_cache)


text \<open>The while loop of easy_bootloader_run in the STM32F4 copy.\<close>

function bootloader_run_frames_stm32 ::
  "boot_config \<Rightarrow> port \<Rightarrow> bootloader_context_t \<times> event list \<Rightarrow> bootloader_context_t \<times> event list" where
  "bootloader_run_frames_stm32 cfg p s =
     (case bootloader_try_extract_frame cfg (fst s) of
        (None, ctx1) \<Rightarrow> (ctx1, snd s)
      | (Some (remaining, payload_len), ctx1) \<Rightarrow>
          (case bootloader_handle_payload_stm32 cfg p remaining payload_len (ctx1, snd s) of
             (status, ctx2, tr2) \<Rightarrow>
               if status \<noteq> BOOT_PORT_OK then (bootloader_reset_context_stm32 cfg ctx2, tr2)
               else bootloader_run_frames_stm32 cfg p (ctx2, tr2)))"
  by pat_completeness auto
termination
  apply (relation "measure (\<lambda>(cfg, p, s). length (rx_cache (fst s)))")
   apply simp
  apply (auto simp: BOOT_FRAME_FIXED_SIZE_def dest!: extract_shrinks[OF sym] handle_payload_stm32_rx_cache[OF sym])
  done

declare bootloader_run_frames_stm32.simps [simp del]

definition easy_bootloader_run_stm32 ::
  "boot_config \<Rightarrow> port \<Rightarrow> byte list \<Rightarrow> bootloader_context_t \<times> event list
     \<Rightarrow> bootloader_context_t \<times> event list" where
  "easy_bootloader_run_stm32 cfg p rx s =
     (case s of (ctx, tr) \<Rightarrow>
        if \<not> initialized ctx then (ctx, tr)
        else
          let ctx1 = bootloader_poll_uart cfg rx ctx
          in if state ctx1 = BOOT_STATE_WAIT_FINISH then
               (case bootloader_try_extract_finish_frame ctx1 of
                  (Some (version, date), ctx2) \<Rightarrow>
                    (case bootloader_handle_finish_frame cfg p version date (ctx2, tr) of
                       (status, ctx3, tr3) \<Rightarrow>
                         if status \<noteq> BOOT_PORT_OK then (bootloader_reset_context_stm32 cfg ctx3, tr3)
                         else (ctx3, tr3))
                | (None, ctx2) \<Rightarrow> (ctx2, tr))
             else bootloader_run_frames_stm32 cfg p (ctx1, tr))"

section \<open>Application command engine\<close>



section \<open>Example inputs\<close>

text \<open>A flash that is erased everywhere: every byte reads 0xFF.\<close>

definition erased_flash :: flash where
  "erased_flash = (\<lambda>_. 0xFF)"

text \<open>
  An STM32F4 flash with a plausible image: stack pointer 0x20000000, reset vector
  0x08010101, and the flag word BOOT_FLAG_APP.
\<close>

definition programmed_flash :: flash where
  "programmed_flash =
     (\<lambda>a. if a = 0x08010003 then 0x20
          else if a = 0x08010004 \<or> a = 0x08010005 \<or> a = 0x08010006 then 0x01
          else if a = 0x08010007 then 0x08
          else if a = 0x080E0000 then 0x02
          else 0x00)"

definition is_flash_write :: "event \<Rightarrow> bool" where
  "is_flash_write e = (case e of FlashWrite _ _ \<Rightarrow> True | _ \<Rightarrow> False)"



section \<open>Wire format\<close>

text \<open>
  The DataFrame layout of the protocol, as a sender builds it: header 55 AA, the 3-byte
  big-endian remaining count, the 2-byte big-endian payload length, the payload, the
  2-byte big-endian checksum field, tail 55 55. The checksum field is a parameter.
\<close>

definition data_frame :: "u32 \<Rightarrow> byte list \<Rightarrow> u16 \<Rightarrow> byte list" where
  "data_frame remaining payload checksum =
     [0x55, 0xAA,
      ucast (drop_bit 16 remaining), ucast (drop_bit 8 remaining), ucast remaining,
      ucast (drop_bit 8 (of_nat (length payload) :: u16)), ucast (of_nat (length payload) :: u16)]
     @ payload
     @ [ucast (drop_bit 8 checksum), ucast checksum, 0x55, 0x55]"

definition sum16 :: "byte list \<Rightarrow> u16" where
  "sum16 bs = foldl (\<lambda>crc b. crc + ucast b) 0 bs"

text \<open>The sum the codec compares with the checksum field: the length field and the payload.\<close>

definition codec_checksum :: "byte list \<Rightarrow> u16" where
  "codec_checksum payload =
     sum16 ([ucast (drop_bit 8 (of_nat (length payload) :: u16)),
             ucast (of_nat (length payload) :: u16)] @ payload)"

text \<open>
  The checksum in the words of the specification: the sum of every byte from the start of
  the remaining field through the end of the payload.
\<close>

definition spec_checksum :: "u32 \<Rightarrow> byte list \<Rightarrow> u16" where
  "spec_checksum remaining payload =
     sum16 ([ucast (drop_bit 16 remaining), ucast (drop_bit 8 remaining), ucast remaining,
             ucast (drop_bit 8 (of_nat (length payload) :: u16)),
             ucast (of_nat (length payload) :: u16)] @ payload)"

text \<open>The fields of a cached candidate frame, as bootloader_try_extract_frame reads them.\<close>

definition cached_packet_len :: "byte list \<Rightarrow> u16" where
  "cached_packet_len cache = push_bit 8 (ucast (cache ! 5)) OR ucast (cache ! 6)"

definition cached_received_crc :: "byte list \<Rightarrow> u16" where
  "cached_received_crc cache =
     push_bit 8 (ucast (cache ! (7 + unat (cached_packet_len cache))))
       OR ucast (cache ! (7 + unat (cached_packet_len cache) + 1))"

definition cached_tail_ok :: "byte list \<Rightarrow> bool" where
  "cached_tail_ok cache =
     (cache ! (7 + unat (cached_packet_len cache) + 2) = 0x55
      \<and> cache ! (7 + unat (cached_packet_len cache) + 3) = 0x55)"

text \<open>The STM32F4 context after initialization, idle, with an empty cache.\<close>

definition idle_ctx :: bootloader_context_t where
  "idle_ctx = (bootloader_reset_context stm32f4_config)\<lparr>initialized := True\<rparr>"

section \<open>Feeding the codec\<close>

text \<open>
  The codec side of one poll of easy_bootloader_run: the UART bytes go into the cache, then
  frames are extracted while bootloader_try_extract_frame returns true. feed runs one poll
  per chunk and collects the extracted (remaining, payload) pairs in order.
\<close>

function extract_frames ::
  "boot_config \<Rightarrow> bootloader_context_t \<Rightarrow> (u32 \<times> byte list) list \<times> bootloader_context_t" where
  "extract_frames cfg ctx =
     (case bootloader_try_extract_frame cfg ctx of
        (None, ctx1) \<Rightarrow> ([], ctx1)
      | (Some (remaining, payload_len), ctx1) \<Rightarrow>
          (case extract_frames cfg ctx1 of
             (fs, ctx2) \<Rightarrow> ((remaining, take (unat payload_len) (payload_buf ctx1)) # fs, ctx2)))"
  by pat_completeness auto
termination
  apply (relation "measure (\<lambda>(cfg, ctx). length (rx_cache ctx))")
   apply simp
  apply (auto simp: BOOT_FRAME_FIXED_SIZE_def dest!: extract_shrinks[OF sym])
  done

declare extract_frames.simps [simp del]

definition poll_frames ::
  "boot_config \<Rightarrow> byte list \<Rightarrow> bootloader_context_t
     \<Rightarrow> (u32 \<times> byte list) list \<times> bootloader_context_t" where
  "poll_frames cfg rx ctx = extract_frames cfg (bootloader_poll_uart cfg rx ctx)"

fun feed ::
  "boot_config \<Rightarrow> byte list list \<Rightarrow> bootloader_context_t
     \<Rightarrow> (u32 \<times> byte list) list \<times> bootloader_context_t" where
  "feed cfg [] ctx = ([], ctx)"
| "feed cfg (rx # rxs) ctx =
     (case poll_frames cfg rx ctx of
        (fs, ctx1) \<Rightarrow> (case feed cfg rxs ctx1 of (gs, ctx2) \<Rightarrow> (fs @ gs, ctx2)))"

section \<open>Observing the flash stream writer\<close>

text \<open>
  The invariant of the writer while every call succeeds: the cursor is a multiple of 4 away
  from the region start, the carry holds at most 3 bytes, and stream_cache is the 4-byte
  array.
\<close>

definition stream_inv :: "boot_config \<Rightarrow> bootloader_context_t \<Rightarrow> bool" where
  "stream_inv cfg ctx =
     (4 dvd unat (current_addr ctx - BOOT_APP_START_ADDR cfg)
      \<and> stream_cache_len ctx \<le> 3
      \<and> length (stream_cache ctx) = 4)"

definition aligned_write :: "boot_config \<Rightarrow> event \<Rightarrow> bool" where
  "aligned_write cfg e =
     (case e of
        FlashWrite a bs \<Rightarrow>
          4 dvd unat (a - BOOT_APP_START_ADDR cfg) \<and> 4 dvd length bs
          \<and> (4 dvd unat (BOOT_APP_START_ADDR cfg) \<longrightarrow> 4 dvd unat a)
      | _ \<Rightarrow> False)"

text \<open>The valid bytes of the carry buffer.\<close>

definition pending :: "bootloader_context_t \<Rightarrow> byte list" where
  "pending ctx = take (stream_cache_len ctx) (stream_cache ctx)"

text \<open>
  What one boot_port_flash_write(addr, data, len) programs, for len a multiple of 4: the
  port's loop takes the word at data + i to address addr + i, for i = 0, 4, 8, ...
\<close>

function flash_program_words :: "u32 \<Rightarrow> byte list \<Rightarrow> (u32 \<times> byte list) list" where
  "flash_program_words addr data =
     (if length data < 4 then []
      else (addr, take 4 data) # flash_program_words (addr + 4) (drop 4 data))"
  by pat_completeness auto
termination
  by (relation "measure (\<lambda>(addr, data). length data)") auto

declare flash_program_words.simps [simp del]

text \<open>The words programmed by the flash writes of a trace, in order.\<close>

fun programmed_words :: "event list \<Rightarrow> (u32 \<times> byte list) list" where
  "programmed_words [] = []"
| "programmed_words (FlashWrite a bs # es) = flash_program_words a bs @ programmed_words es"
| "programmed_words (e # es) = programmed_words es"

text \<open>
  A transfer through the writer: bootloader_stream_write for each chunk in arrival order,
  stopping at the first failure, then bootloader_stream_flush.
\<close>

fun stream_all ::
  "port \<Rightarrow> byte list list \<Rightarrow> bootloader_context_t \<times> event list
     \<Rightarrow> boot_port_status_t \<times> bootloader_context_t \<times> event list" where
  "stream_all p [] s = bootloader_stream_flush p s"
| "stream_all p (chunk # chunks) s =
     (case bootloader_stream_write p chunk s of
        (status, ctx1, tr1) \<Rightarrow>
          if status \<noteq> BOOT_PORT_OK then (status, ctx1, tr1)
          else stream_all p chunks (ctx1, tr1))"


text \<open>The bytes handed to the flash writes of a trace, in order.\<close>

fun flash_bytes :: "event list \<Rightarrow> byte list" where
  "flash_bytes [] = []"
| "flash_bytes (FlashWrite a bs # es) = bs @ flash_bytes es"
| "flash_bytes (e # es) = flash_bytes es"

text \<open>
  A trace of flash writes only, the first at the given address, each of a multiple of 4
  bytes and each starting where the one before ended.
\<close>

fun contiguous :: "u32 \<Rightarrow> event list \<Rightarrow> bool" where
  "contiguous a [] = True"
| "contiguous a (FlashWrite b bs # es) =
     (b = a \<and> 4 dvd length bs \<and> contiguous (a + of_nat (length bs)) es)"
| "contiguous a (e # es) = False"

text \<open>The number of bytes that pad n bytes to the next multiple of 4.\<close>

definition pad_len :: "nat \<Rightarrow> nat" where
  "pad_len n = (4 - n mod 4) mod 4"

section \<open>The poll loop of easy_bootloader_compoents and the two-frame scenario\<close>

lemma handle_payload_rx_cache:
  "bootloader_handle_payload cfg p r l (ctx, tr) = (st, ctx', tr') \<Longrightarrow> rx_cache ctx' = rx_cache ctx"
  unfolding bootloader_handle_payload_def Let_def
  by (auto split: if_splits prod.splits dest!: stream_write_rx_cache stream_flush_rx_cache prepare_rx_cache)

text \<open>
  The while loop of easy_bootloader_run in easy_bootloader_compoents: a failed frame ends
  the loop, the context is left as it is.
\<close>

function bootloader_run_frames ::
  "boot_config \<Rightarrow> port \<Rightarrow> bootloader_context_t \<times> event list \<Rightarrow> bootloader_context_t \<times> event list" where
  "bootloader_run_frames cfg p s =
     (case bootloader_try_extract_frame cfg (fst s) of
        (None, ctx1) \<Rightarrow> (ctx1, snd s)
      | (Some (remaining, payload_len), ctx1) \<Rightarrow>
          (case bootloader_handle_payload cfg p remaining payload_len (ctx1, snd s) of
             (status, ctx2, tr2) \<Rightarrow>
               if status \<noteq> BOOT_PORT_OK then (ctx2, tr2)
               else bootloader_run_frames cfg p (ctx2, tr2)))"
  by pat_completeness auto
termination
  apply (relation "measure (\<lambda>(cfg, p, s). length (rx_cache (fst s)))")
   apply simp
  apply (auto simp: BOOT_FRAME_FIXED_SIZE_def dest!: extract_shrinks[OF sym] handle_payload_rx_cache[OF sym])
  done

declare bootloader_run_frames.simps [simp del]

definition easy_bootloader_run ::
  "boot_config \<Rightarrow> port \<Rightarrow> byte list \<Rightarrow> bootloader_context_t \<times> event list
     \<Rightarrow> bootloader_context_t \<times> event list" where
  "easy_bootloader_run cfg p rx s =
     (case s of (ctx, tr) \<Rightarrow>
        if \<not> initialized ctx then (ctx, tr)
        else bootloader_run_frames cfg p (bootloader_poll_uart cfg rx ctx, tr))"

text \<open>The context of easy_bootloader_compoents after initialization, on the CH32V307.\<close>

definition idle_ctx_ch32 :: bootloader_context_t where
  "idle_ctx_ch32 = (bootloader_reset_context ch32v307_config)\<lparr>initialized := True\<rparr>"

text \<open>
  The two DataFrames of the scenario, with the checksum fields the codec accepts:
  remaining = 5 with five bytes AA, then remaining = 0 with three bytes BB.
\<close>

definition frame_5AA :: "byte list" where
  "frame_5AA = data_frame 5 [0xAA, 0xAA, 0xAA, 0xAA, 0xAA]
                 (codec_checksum [0xAA, 0xAA, 0xAA, 0xAA, 0xAA])"

definition frame_3BB :: "byte list" where
  "frame_3BB = data_frame 0 [0xBB, 0xBB, 0xBB] (codec_checksum [0xBB, 0xBB, 0xBB])"

text \<open>The Ack frames sent in a trace.\<close>

definition acks :: "event list \<Rightarrow> event list" where
  "acks tr = filter (\<lambda>e. e = UartWrite g_boot_ack) tr"

section \<open>FinishFrames outside BOOT_STATE_WAIT_FINISH\<close>

text \<open>
  The FinishFrame of the protocol, as a sender builds it: header 55 AA, the version and
  the date as 4 big-endian bytes each, FF FD, tail 55 55.
\<close>

definition finish_frame :: "u32 \<Rightarrow> u32 \<Rightarrow> byte list" where
  "finish_frame version date =
     [0x55, 0xAA,
      ucast (drop_bit 24 version), ucast (drop_bit 16 version), ucast (drop_bit 8 version),
      ucast version,
      ucast (drop_bit 24 date), ucast (drop_bit 16 date), ucast (drop_bit 8 date), ucast date,
      0xFF, 0xFD, 0x55, 0x55]"

text \<open>
  The checks bootloader_try_extract_frame makes on the head of the cache before it returns
  a frame, the payload size limit apart.
\<close>

definition head_accepts :: "byte list \<Rightarrow> bool" where
  "head_accepts c =
     (BOOT_FRAME_FIXED_SIZE \<le> length c \<and> c ! 0 = 0x55 \<and> c ! 1 = 0xAA
      \<and> BOOT_FRAME_FIXED_SIZE + unat (cached_packet_len c) \<le> length c
      \<and> calc_crc c (7 + unat (cached_packet_len c)) = cached_received_crc c
      \<and> cached_tail_ok c)"

text \<open>
  The STM32F4 context in the middle of a download: one word programmed, one byte in the
  carry, as after the first DataFrame of the two-frame scenario.
\<close>

definition receiving_ctx :: bootloader_context_t where
  "receiving_ctx =
     idle_ctx\<lparr>payload_buf := [0xAA, 0xAA, 0xAA, 0xAA, 0xAA] @ drop 5 (payload_buf idle_ctx),
              current_addr := 0x08010004, stream_cache := [0xAA, 0, 0, 0],
              stream_cache_len := 1, state := BOOT_STATE_RECEIVING, download_active := True\<rparr>"

section \<open>Flash stream writer: a full carry\<close>





section \<open>Flag region: results\<close>

lemmas port_defs =
  boot_port_flash_erase_def boot_port_flash_write_def boot_port_uart_write_def
  boot_port_jump_to_app_def boot_port_system_reset_def

lemmas app_port_defs =
  boot_port_app_flash_erase_def boot_port_app_flash_write_def boot_port_app_uart_write_def
  boot_port_app_system_reset_def

text \<open>
  On the bootloader side a flag region update whose port calls all succeed is one erase of
  the whole region, then the words flag, version, date at offsets 0, 4 and 8, and nothing
  else.
\<close>

lemma bootloader_write_flag_region_ok:
  "bootloader_write_flag_region cfg (\<lambda>_. BOOT_PORT_OK) flag version date tr =
     (BOOT_PORT_OK,
      tr @ [FlashErase (BOOT_FLAG_REGION_ADDR cfg) (BOOT_FLAG_REGION_SIZE cfg),
            FlashWrite (BOOT_FLAG_REGION_ADDR cfg) (word_buf flag),
            FlashWrite (BOOT_FLAG_REGION_ADDR cfg + 4) (word_buf version),
            FlashWrite (BOOT_FLAG_REGION_ADDR cfg + 8) (word_buf date)])"
  by (simp add: bootloader_write_flag_region_def port_defs BOOT_FLAG_ADDR_def
      BOOT_VERSION_ADDR_def BOOT_DATE_ADDR_def)

text \<open>
  C8, application side. With a port on which every call succeeds,
  app_write_flag_region(BOOT_FLAG_BOOTLOADER, 6, 0x20251201) on the CH32V307 layout
  issues the erase and then four word writes, not three: the date word at offset 8 is
  programmed twice.
\<close>

theorem app_write_flag_region_writes_date_twice:
  "app_write_flag_region ch32v307_app_config (\<lambda>_. BOOT_PORT_APP_OK) 1 6 0x20251201 [] =
     (BOOT_PORT_APP_OK,
      [FlashErase 0x0003F800 0x800,
       FlashWrite 0x0003F800 [0x01, 0x00, 0x00, 0x00],
       FlashWrite 0x0003F804 [0x06, 0x00, 0x00, 0x00],
       FlashWrite 0x0003F808 [0x01, 0x12, 0x25, 0x20],
       FlashWrite 0x0003F808 [0x01, 0x12, 0x25, 0x20]])"
  by (simp add: app_write_flag_region_def app_port_defs ch32v307_app_config_def
      BOOT_APP_FLAG_ADDR_def BOOT_APP_VERSION_ADDR_def BOOT_APP_DATE_ADDR_def word_buf_def)

section \<open>Power-on decision\<close>

lemma read_u32_erased:
  assumes "mem a = 0xFF" "mem (a + 1) = 0xFF" "mem (a + 2) = 0xFF" "mem (a + 3) = 0xFF"
  shows "read_u32 mem a = 0xFFFFFFFF"
  using assms by (simp add: read_u32_def)

lemma init_events:
  "snd (easy_bootloader_init cfg mem) =
     (if read_u32 mem (BOOT_FLAG_ADDR cfg) = BOOT_FLAG_APP \<and> bootloader_check_app_valid cfg mem
      then [JumpToApp (BOOT_APP_START_ADDR cfg)] else [])"
  by (simp add: easy_bootloader_init_def Let_def bootloader_read_flag_region_def port_defs
      BOOT_FLAG_APP_def BOOT_FLAG_BOOTLOADER_def)

lemma erased_invalid:
  assumes "\<forall>i<8. mem (BOOT_APP_START_ADDR cfg + of_nat i) = 0xFF"
    and "BOOT_ARCH cfg = BOOT_ARCH_RISCV \<or> BOOT_FLAG_ERASED cfg = 0xFFFFFFFF
           \<or> BOOT_APP_END_ADDR cfg \<noteq> 0xFFFFFFFF"
  shows "\<not> bootloader_check_app_valid cfg mem"
proof -
  let ?s = "BOOT_APP_START_ADDR cfg"
  have b: "mem (?s + of_nat i) = 0xFF" if "i < 8" for i using assms(1) that by blast
  have "mem ?s = 0xFF" "mem (?s + 1) = 0xFF" "mem (?s + 2) = 0xFF" "mem (?s + 3) = 0xFF"
    using b[of 0] b[of 1] b[of 2] b[of 3] by simp_all
  then have w0: "read_u32 mem ?s = 0xFFFFFFFF" by (rule read_u32_erased)
  have "mem (?s + 4) = 0xFF" "mem (?s + 4 + 1) = 0xFF" "mem (?s + 4 + 2) = 0xFF" "mem (?s + 4 + 3) = 0xFF"
    using b[of 4] b[of 5] b[of 6] b[of 7] by (simp_all add: add.assoc)
  then have w1: "read_u32 mem (?s + 4) = 0xFFFFFFFF" by (rule read_u32_erased)
  have m1: "(0xFFFFFFFF::u32) = - 1" by simp
  have top: "(x::u32) \<le> 0xFFFFFFFF" for x
    unfolding m1 by (rule word_n1_ge)
  have "\<not> (0xFFFFFFFF::u32) > BOOT_APP_END_ADDR cfg \<Longrightarrow> BOOT_APP_END_ADDR cfg = 0xFFFFFFFF"
    using top[of "BOOT_APP_END_ADDR cfg"] by simp
  then show ?thesis
    using assms(2) by (auto simp: bootloader_check_app_valid_def Let_def w0 w1 split: boot_arch.splits)
qed

text \<open>
  C1. The events of easy_bootloader_init are the single call
  boot_port_jump_to_app(BOOT_APP_START_ADDR) when the flag word read from the flag region is
  BOOT_FLAG_APP and bootloader_check_app_valid passes, and no event at all in every other
  case. When the first 8 bytes of the application region are 0xFF the checker fails and
  nothing is called, whatever the flag is: on the RISC-V variant always (the entry word is
  odd), on the ARM variant when the erased sentinel is the all-ones word, as in the
  STM32F4 configuration, or when the region does not end at the top of the address space.
\<close>

theorem easy_bootloader_init_jump:
  "snd (easy_bootloader_init cfg mem) =
     (if read_u32 mem (BOOT_FLAG_ADDR cfg) = BOOT_FLAG_APP \<and> bootloader_check_app_valid cfg mem
      then [JumpToApp (BOOT_APP_START_ADDR cfg)] else [])
   \<and> ((\<forall>i<8. mem (BOOT_APP_START_ADDR cfg + of_nat i) = 0xFF)
        \<and> (BOOT_ARCH cfg = BOOT_ARCH_RISCV \<or> BOOT_FLAG_ERASED cfg = 0xFFFFFFFF
             \<or> BOOT_APP_END_ADDR cfg \<noteq> 0xFFFFFFFF)
      \<longrightarrow> \<not> bootloader_check_app_valid cfg mem \<and> snd (easy_bootloader_init cfg mem) = [])"
  using erased_invalid[of mem cfg] by (simp add: init_events)

theorem easy_bootloader_init_jump_witness:
  "\<not> bootloader_check_app_valid stm32f4_config erased_flash
   \<and> snd (easy_bootloader_init stm32f4_config erased_flash) = []
   \<and> \<not> bootloader_check_app_valid ch32v307_config erased_flash
   \<and> snd (easy_bootloader_init ch32v307_config erased_flash) = []
   \<and> snd (easy_bootloader_init stm32f4_config programmed_flash) = [JumpToApp 0x08010000]"
proof -
  have "bootloader_check_app_valid stm32f4_config programmed_flash"
    by (simp add: bootloader_check_app_valid_def programmed_flash_def stm32f4_config_def
        read_u32_def BOOT_APP_END_ADDR_def Let_def)
  moreover have "read_u32 programmed_flash (BOOT_FLAG_ADDR stm32f4_config) = BOOT_FLAG_APP"
    by (simp add: programmed_flash_def stm32f4_config_def read_u32_def BOOT_FLAG_ADDR_def
        BOOT_FLAG_APP_def)
  ultimately show ?thesis
    using easy_bootloader_init_jump[of stm32f4_config erased_flash]
      easy_bootloader_init_jump[of ch32v307_config erased_flash]
      easy_bootloader_init_jump[of stm32f4_config programmed_flash]
    by (simp add: erased_flash_def stm32f4_config_def ch32v307_config_def)
qed

section \<open>StartFlash in the application\<close>




section \<open>Bytes and words\<close>

lemma byte_lt: "unat (a::byte) < 256"
  using unsigned_less[of a, where 'a=nat] by simp

lemma unat_ucast_byte16: "unat (ucast (a::byte) :: u16) = unat a"
  by (simp add: unsigned_ucast_eq take_bit_nat_eq_self_iff) (use byte_lt[of a] in simp)

lemma u16_of_bytes:
  "unat (push_bit 8 (ucast (a::byte)) OR ucast (b::byte) :: u16) = 256 * unat a + unat b"
proof -
  have "push_bit 8 (ucast a :: u16) AND ucast b = 0"
    by (rule bit_word_eqI) (auto simp: bit_simps dest: bit_imp_le_length)
  then have "(push_bit 8 (ucast a) OR ucast b :: u16) = push_bit 8 (ucast a) + ucast b"
    by (simp add: disjunctive_add_eq_or)
  moreover have "unat (push_bit 8 (ucast a :: u16)) = 256 * unat a"
    using byte_lt[of a] by (simp add: push_bit_eq_mult unat_word_ariths unat_ucast_byte16)
  ultimately show ?thesis
    using byte_lt[of a] byte_lt[of b] by (simp add: unat_word_ariths unat_ucast_byte16)
qed

lemma be16_roundtrip:
  "push_bit 8 (ucast (ucast (drop_bit 8 w) :: byte)) OR ucast (ucast w :: byte) = (w :: u16)"
  by (rule bit_word_eqI) (auto simp: bit_simps)

lemma hi24:
  assumes "(r::u32) < 2 ^ 24" "24 \<le> n"
  shows "\<not> bit r n"
proof -
  have "r AND mask 24 = r" using assms(1) by (rule less_mask_eq)
  then have "bit r n = bit (r AND mask 24) n" by simp
  then show ?thesis using assms(2) by (simp add: bit_simps)
qed

lemma be24_roundtrip:
  assumes "r < 2 ^ 24"
  shows "push_bit 16 (ucast (ucast (drop_bit 16 r) :: byte)) OR push_bit 8 (ucast (ucast (drop_bit 8 r) :: byte))
     OR ucast (ucast r :: byte) = (r :: u32)"
proof (rule bit_word_eqI)
  fix n :: nat
  assume "n < LENGTH(32)"
  consider "n < 8" | "8 \<le> n" "n < 16" | "16 \<le> n" "n < 24" | "24 \<le> n" by linarith
  then show "bit (push_bit 16 (ucast (ucast (drop_bit 16 r) :: byte))
                   OR push_bit 8 (ucast (ucast (drop_bit 8 r) :: byte))
                   OR ucast (ucast r :: byte) :: u32) n = bit r n"
  proof cases
    case 1
    then show ?thesis by (simp add: bit_simps)
  next
    case 2
    then show ?thesis by (auto simp: bit_simps)
  next
    case 3
    then show ?thesis by (auto simp: bit_simps)
  next
    case 4
    then show ?thesis using hi24[OF assms, of n] by (simp add: bit_simps)
  qed
qed

lemma three_mask: "(3::u32) = mask 2"
  by (simp add: mask_eq_exp_minus_1)

lemma and_not3_word: "(w::u32) AND NOT 3 = push_bit 2 (drop_bit 2 w)"
  unfolding three_mask
proof (rule bit_word_eqI)
  fix n :: nat
  assume "n < LENGTH(32)"
  show "bit (w AND NOT (mask 2)) n = bit (push_bit 2 (drop_bit 2 w)) n"
  proof (cases "n < 2")
    case True
    then show ?thesis by (simp add: bit_simps)
  next
    case False
    then obtain m where "n = Suc (Suc m)"
      by (metis Suc_lessI less_2_cases_iff not0_implies_Suc not_less_eq numeral_2_eq_2)
    then show ?thesis by (auto simp: bit_simps)
  qed
qed

lemma and_not3: 
  assumes "n < 2 ^ 32" 
  shows "unat ((of_nat n :: u32) AND NOT 3) = n - n mod 4"
proof -
  have u: "unat (of_nat n :: u32) = n" using assms by (simp add: unat_of_nat)
  have "n div 4 * 4 \<le> n" by simp
  then have lt: "n div 4 * 4 < 2 ^ 32" using assms by linarith
  have "unat (push_bit 2 (drop_bit 2 (of_nat n :: u32))) = take_bit 32 (push_bit 2 (drop_bit 2 n))"
    by (simp add: unsigned_push_bit_eq unat_drop_bit_eq u)
  also have "\<dots> = take_bit 32 (n div 4 * 4)"
    by (simp add: push_bit_eq_mult drop_bit_eq_div)
  also have "\<dots> = n div 4 * 4"
    using lt by (rule take_bit_nat_eq_self)
  also have "\<dots> = n - n mod 4" by presburger
  finally show ?thesis by (simp only: and_not3_word)
qed

section \<open>Frame codec: resynchronization and checksum\<close>




lemma map_nth_upt: "b \<le> length c \<Longrightarrow> map ((!) c) [a..<b] = take (b - a) (drop a c)"
  by (simp add: list_eq_iff_nth_eq)

lemma calc_crc_sum16:
  "pos \<le> length c \<Longrightarrow> calc_crc c pos = sum16 (take (pos - 5) (drop 5 c))"
proof -
  assume "pos \<le> length c"
  then have "sum16 (take (pos - 5) (drop 5 c)) = sum16 (map ((!) c) [5..<pos])"
    by (simp add: map_nth_upt)
  also have "\<dots> = calc_crc c pos"
    by (simp add: sum16_def calc_crc_def foldl_map)
  finally show ?thesis by simp
qed

lemma length_data_frame: "length (data_frame r p ck) = 11 + length p"
  by (simp add: data_frame_def)

lemma data_frame_split:
  "data_frame r p ck @ rest =
     [0x55, 0xAA, ucast (drop_bit 16 r), ucast (drop_bit 8 r), ucast r]
     @ ([ucast (drop_bit 8 (of_nat (length p) :: u16)), ucast (of_nat (length p) :: u16)] @ p)
     @ ([ucast (drop_bit 8 ck), ucast ck, 0x55, 0x55] @ rest)"
  by (simp add: data_frame_def)

lemma unat_len16: "n < 65536 \<Longrightarrow> unat (of_nat n :: u16) = n"
  by (simp add: unat_of_nat)

lemma frame_fields:
  assumes c: "c = data_frame r p ck @ rest" and n: "length p < 65536" and r: "r < 2 ^ 24"
  shows "11 + length p \<le> length c"
    and "c ! 0 = 0x55" and "c ! 1 = 0xAA"
    and "push_bit 16 (ucast (c ! 2)) OR push_bit 8 (ucast (c ! 3)) OR ucast (c ! 4) = r"
    and "(push_bit 8 (ucast (c ! 5)) OR ucast (c ! 6) :: u16) = of_nat (length p)"
    and "take (length p) (drop 7 c) = p"
    and "calc_crc c (7 + length p) = codec_checksum p"
    and "(push_bit 8 (ucast (c ! (7 + length p))) OR ucast (c ! (8 + length p)) :: u16) = ck"
    and "c ! (9 + length p) = 0x55" and "c ! (10 + length p) = 0x55"
    and "drop (11 + length p) c = rest"
proof -
  show "11 + length p \<le> length c" by (simp add: c length_data_frame)
  show "c ! 0 = 0x55" "c ! 1 = 0xAA" by (simp_all add: c data_frame_def)
  show "push_bit 16 (ucast (c ! 2)) OR push_bit 8 (ucast (c ! 3)) OR ucast (c ! 4) = r"
    using be24_roundtrip[OF r] by (simp add: c data_frame_def)
  show "(push_bit 8 (ucast (c ! 5)) OR ucast (c ! 6) :: u16) = of_nat (length p)"
    using be16_roundtrip[of "of_nat (length p)"] by (simp add: c data_frame_def)
  show "take (length p) (drop 7 c) = p" by (simp add: c data_frame_def)
  have "7 + length p \<le> length c" by (simp add: c length_data_frame)
  then have "calc_crc c (7 + length p) = sum16 (take (2 + length p) (drop 5 c))"
    by (simp add: calc_crc_sum16)
  also have "take (2 + length p) (drop 5 c) =
      [ucast (drop_bit 8 (of_nat (length p) :: u16)), ucast (of_nat (length p) :: u16)] @ p"
    by (simp add: c data_frame_def)
  finally show "calc_crc c (7 + length p) = codec_checksum p"
    by (simp add: codec_checksum_def)
  have tl: "c ! (7 + length p + j) = ([ucast (drop_bit 8 ck), ucast ck, 0x55, 0x55] @ rest) ! j" for j
  proof -
    let ?A = "[0x55, 0xAA, ucast (drop_bit 16 r), ucast (drop_bit 8 r), ucast r,
               ucast (drop_bit 8 (of_nat (length p) :: u16)), ucast (of_nat (length p) :: u16)] @ p"
    let ?B = "[ucast (drop_bit 8 ck), ucast ck, 0x55, 0x55] @ rest"
    have eq: "c = ?A @ ?B" by (simp add: c data_frame_def)
    have "(?A @ ?B) ! (length ?A + j) = ?B ! j" by (rule nth_append_length_plus)
    moreover have "length ?A = 7 + length p" by simp
    ultimately show ?thesis by (simp only: eq)
  qed
  show "(push_bit 8 (ucast (c ! (7 + length p))) OR ucast (c ! (8 + length p)) :: u16) = ck"
    using tl[of 0] tl[of 1] be16_roundtrip[of ck] by (simp add: add.commute)
  show "c ! (9 + length p) = 0x55" "c ! (10 + length p) = 0x55"
    using tl[of 2] tl[of 3] by (simp_all add: add.commute)
  show "drop (11 + length p) c = rest" by (simp add: c length_data_frame)
qed



lemma frame_at_head:
  assumes c: "rx_cache ctx = data_frame r p ck @ rest"
    and n: "length p \<le> BOOT_PAYLOAD_MAX_SIZE cfg" "length p < 65536" and r: "r < 2 ^ 24"
  shows "bootloader_try_extract_frame cfg ctx =
           (if codec_checksum p = ck
            then (Some (r, of_nat (length p)),
                  ctx\<lparr>payload_buf := p @ drop (length p) (payload_buf ctx), rx_cache := rest\<rparr>)
            else bootloader_try_extract_frame cfg (ctx\<lparr>rx_cache := drop 2 (rx_cache ctx)\<rparr>))"
proof -
  note f = frame_fields[OF c n(2) r]
  have u: "unat (of_nat (length p) :: u16) = length p" using n(2) by (rule unat_len16)
  have two: "bootloader_consume_cache 2 ctx = ctx\<lparr>rx_cache := drop 2 (rx_cache ctx)\<rparr>"
    using f(1) by (simp add: bootloader_consume_cache_def)
  have pos: "(0 < (of_nat (length p) :: u16)) = (p \<noteq> [])"
    using u by (simp add: word_less_nat_alt)
  have fin: "bootloader_consume_cache (11 + length p) (ctx\<lparr>payload_buf := b\<rparr>)
               = ctx\<lparr>payload_buf := b, rx_cache := rest\<rparr>" for b
    using f(1) f(11) by (auto simp: bootloader_consume_cache_def)
  have fin0: "bootloader_consume_cache (11 + length p) ctx = ctx\<lparr>rx_cache := rest\<rparr>"
    using f(1) f(11) by (auto simp: bootloader_consume_cache_def)
  show ?thesis
    apply (subst bootloader_try_extract_frame.simps)
    using f n(1)
    apply (simp add: Let_def BOOT_FRAME_FIXED_SIZE_def u two pos add.commute)
    using fin fin0
    apply (auto simp: add.commute)
    done
qed


text \<open>
  C3, as the code has it. A candidate DataFrame at the front of the cache, with a payload
  of at most BOOT_PAYLOAD_MAX_SIZE bytes and the right tail, is extracted (its remaining
  count and length returned, its payload copied out, the whole frame consumed) exactly
  when its checksum field equals the 16-bit wrapping sum of the bytes from the start of
  the 2-byte length field through the end of the payload. The three bytes of the
  remaining field are not part of the sum.
\<close>

theorem frame_accepted_iff_codec_checksum:
  assumes "rx_cache ctx = data_frame r p ck @ rest"
    and "length p \<le> BOOT_PAYLOAD_MAX_SIZE cfg" and "length p < 65536" and "r < 2 ^ 24"
  shows "(bootloader_try_extract_frame cfg ctx =
            (Some (r, of_nat (length p)),
             ctx\<lparr>payload_buf := p @ drop (length p) (payload_buf ctx), rx_cache := rest\<rparr>))
          \<longleftrightarrow> ck = codec_checksum p"
proof
  assume "ck = codec_checksum p"
  then show "bootloader_try_extract_frame cfg ctx =
            (Some (r, of_nat (length p)),
             ctx\<lparr>payload_buf := p @ drop (length p) (payload_buf ctx), rx_cache := rest\<rparr>)"
    using frame_at_head[OF assms] by simp
next
  assume acc: "bootloader_try_extract_frame cfg ctx =
            (Some (r, of_nat (length p)),
             ctx\<lparr>payload_buf := p @ drop (length p) (payload_buf ctx), rx_cache := rest\<rparr>)"
  show "ck = codec_checksum p"
  proof (rule ccontr)
    assume "ck \<noteq> codec_checksum p"
    then have "bootloader_try_extract_frame cfg (ctx\<lparr>rx_cache := drop 2 (rx_cache ctx)\<rparr>) =
            (Some (r, of_nat (length p)),
             ctx\<lparr>payload_buf := p @ drop (length p) (payload_buf ctx), rx_cache := rest\<rparr>)"
      using frame_at_head[OF assms] acc by auto
    from extract_shrinks[OF this]
    have "length rest + 11 + unat (of_nat (length p) :: u16) \<le> length (rx_cache ctx) - 2"
      by (simp add: BOOT_FRAME_FIXED_SIZE_def)
    then show False
      using assms(3) by (simp add: assms(1) length_data_frame unat_len16)
  qed
qed

theorem frame_accepted_iff_codec_checksum_witness:
  "codec_checksum [0xAA] = 0xAB
   \<and> fst (bootloader_try_extract_frame stm32f4_config
             (idle_ctx\<lparr>rx_cache := data_frame 5 [0xAA] 0xAB\<rparr>)) = Some (5, 1)
   \<and> rx_cache (snd (bootloader_try_extract_frame stm32f4_config
             (idle_ctx\<lparr>rx_cache := data_frame 5 [0xAA] 0xAB\<rparr>))) = []"
proof -
  have ck: "codec_checksum [0xAA] = 0xAB"
    by (simp add: codec_checksum_def sum16_def)
  have "rx_cache (idle_ctx\<lparr>rx_cache := data_frame 5 [0xAA] 0xAB\<rparr>) = data_frame 5 [0xAA] 0xAB @ []"
    and "length [0xAA :: byte] \<le> BOOT_PAYLOAD_MAX_SIZE stm32f4_config"
    and "length [0xAA :: byte] < 65536" and "(5 :: u32) < 2 ^ 24"
    by (simp_all add: BOOT_PAYLOAD_MAX_SIZE_def BOOT_FRAME_FIXED_SIZE_def stm32f4_config_def)
  from frame_accepted_iff_codec_checksum[OF this] ck show ?thesis by simp
qed

text \<open>
  C3 as stated fails. For remaining = 5 and the payload AA, the sum from the remaining field
  on is 0xB0. The frame carrying 0xB0 is rejected, and the frame carrying 0xAB, which is
  not that sum, is accepted.
\<close>

theorem spec_checksum_counterexample:
  "spec_checksum 5 [0xAA] = 0xB0
   \<and> fst (bootloader_try_extract_frame stm32f4_config
             (idle_ctx\<lparr>rx_cache := data_frame 5 [0xAA] 0xB0\<rparr>)) = None
   \<and> 0xAB \<noteq> spec_checksum 5 [0xAA]
   \<and> fst (bootloader_try_extract_frame stm32f4_config
             (idle_ctx\<lparr>rx_cache := data_frame 5 [0xAA] 0xAB\<rparr>)) = Some (5, 1)"
  apply (simp add: spec_checksum_def sum16_def data_frame_def)
  apply (simp add: bootloader_try_extract_frame.simps Let_def BOOT_FRAME_FIXED_SIZE_def
      BOOT_PAYLOAD_MAX_SIZE_def stm32f4_config_def calc_crc_def bootloader_consume_cache_def)
  done


section \<open>Frame codec: chunked and byte-wise arrival\<close>

lemma short_cache_none:
  "length (rx_cache ctx) < 11 \<Longrightarrow> bootloader_try_extract_frame cfg ctx = (None, ctx)"
  by (subst bootloader_try_extract_frame.simps) (simp add: BOOT_FRAME_FIXED_SIZE_def)

lemma frame_prefix_none:
  assumes c: "rx_cache ctx = take k (data_frame r p ck)" and k: "k < 11 + length p"
    and n: "length p \<le> BOOT_PAYLOAD_MAX_SIZE cfg" "length p < 65536"
  shows "bootloader_try_extract_frame cfg ctx = (None, ctx)"
proof (cases "k < 11")
  case True
  then show ?thesis using c by (simp add: short_cache_none)
next
  case False
  have len: "length (rx_cache ctx) = k" using k by (simp add: c length_data_frame)
  have nth: "rx_cache ctx ! i = data_frame r p ck ! i" if "i < 7" for i
    using that False by (simp add: c)
  have h: "rx_cache ctx ! 0 = 0x55" "rx_cache ctx ! 1 = 0xAA"
    by (simp_all add: nth data_frame_def)
  have "(push_bit 8 (ucast (rx_cache ctx ! 5)) OR ucast (rx_cache ctx ! 6) :: u16) = of_nat (length p)"
    using be16_roundtrip[of "of_nat (length p)"] by (simp add: nth data_frame_def)
  then show ?thesis
    using False k n h len
    by (subst bootloader_try_extract_frame.simps)
       (simp add: Let_def BOOT_FRAME_FIXED_SIZE_def unat_len16)
qed


lemma extract_frames_prefix:
  assumes "rx_cache ctx = take k (data_frame r p ck)" and "k < 11 + length p"
    and "length p \<le> BOOT_PAYLOAD_MAX_SIZE cfg" "length p < 65536"
  shows "extract_frames cfg ctx = ([], ctx)"
  by (subst extract_frames.simps) (simp add: frame_prefix_none[OF assms])

lemma extract_frames_whole:
  assumes c: "rx_cache ctx = data_frame r p (codec_checksum p)"
    and n: "length p \<le> BOOT_PAYLOAD_MAX_SIZE cfg" "length p < 65536" and r: "r < 2 ^ 24"
  shows "extract_frames cfg ctx =
           ([(r, p)], ctx\<lparr>payload_buf := p @ drop (length p) (payload_buf ctx), rx_cache := []\<rparr>)"
proof -
  have c': "rx_cache ctx = data_frame r p (codec_checksum p) @ []" using c by simp
  have one: "bootloader_try_extract_frame cfg ctx =
      (Some (r, of_nat (length p)),
       ctx\<lparr>payload_buf := p @ drop (length p) (payload_buf ctx), rx_cache := []\<rparr>)"
    using frame_at_head[OF c' n r] by simp
  have rest: "extract_frames cfg (ctx\<lparr>payload_buf := b, rx_cache := []\<rparr>)
                = ([], ctx\<lparr>payload_buf := b, rx_cache := []\<rparr>)" for b
    by (subst extract_frames.simps) (simp add: short_cache_none)
  show ?thesis
    using n(2) by (subst extract_frames.simps) (simp add: one rest unat_len16)
qed

lemma poll_one_byte:
  assumes "rx_cache ctx = take k f" and "k < length f" and "length f \<le> BOOT_PACKET_MAX_SIZE cfg"
  shows "bootloader_poll_uart cfg [f ! k] ctx = ctx\<lparr>rx_cache := take (Suc k) f\<rparr>"
  using assms by (simp add: bootloader_poll_uart_def Let_def take_Suc_conv_app_nth)

lemma poll_whole:
  assumes "rx_cache ctx = []" and "f \<noteq> []" and "length f \<le> BOOT_PACKET_MAX_SIZE cfg"
  shows "bootloader_poll_uart cfg f ctx = ctx\<lparr>rx_cache := f\<rparr>"
  using assms by (auto simp: bootloader_poll_uart_def Let_def)

lemma feed_bytewise_from:
  assumes n: "length p \<le> BOOT_PAYLOAD_MAX_SIZE cfg" "length p < 65536" and r: "r < 2 ^ 24"
    and fit: "11 + length p \<le> BOOT_PACKET_MAX_SIZE cfg"
    and k: "k < 11 + length p"
  shows "feed cfg (map (\<lambda>b. [b]) (drop k (data_frame r p (codec_checksum p))))
           (ctx\<lparr>rx_cache := take k (data_frame r p (codec_checksum p))\<rparr>)
         = ([(r, p)], ctx\<lparr>payload_buf := p @ drop (length p) (payload_buf ctx), rx_cache := []\<rparr>)"
  using k
proof (induction "10 + length p - k" arbitrary: k)
  case 0
  let ?f = "data_frame r p (codec_checksum p)"
  have lf: "length ?f = 11 + length p" by (rule length_data_frame)
  from 0 have k: "Suc k = length ?f" by (simp add: lf)
  then have dr: "drop k ?f = [?f ! k]"
    by (metis Cons_nth_drop_Suc drop_all lessI order_refl)
  have po: "bootloader_poll_uart cfg [?f ! k] (ctx\<lparr>rx_cache := take k ?f\<rparr>) = ctx\<lparr>rx_cache := ?f\<rparr>"
    using poll_one_byte[of "ctx\<lparr>rx_cache := take k ?f\<rparr>" k ?f cfg] k fit by (simp add: lf)
  show ?case
    using extract_frames_whole[of "ctx\<lparr>rx_cache := ?f\<rparr>" r p cfg] n r
    by (simp add: dr poll_frames_def po)
next
  case (Suc m)
  let ?f = "data_frame r p (codec_checksum p)"
  have lf: "length ?f = 11 + length p" by (rule length_data_frame)
  from Suc have k: "Suc k < length ?f" by (simp add: lf)
  then have dr: "drop k ?f = ?f ! k # drop (Suc k) ?f"
    by (simp add: Cons_nth_drop_Suc)
  have po: "bootloader_poll_uart cfg [?f ! k] (ctx\<lparr>rx_cache := take k ?f\<rparr>)
              = ctx\<lparr>rx_cache := take (Suc k) ?f\<rparr>"
    using poll_one_byte[of "ctx\<lparr>rx_cache := take k ?f\<rparr>" k ?f cfg] k fit by (simp add: lf)
  have ex: "extract_frames cfg (ctx\<lparr>rx_cache := take (Suc k) ?f\<rparr>)
              = ([], ctx\<lparr>rx_cache := take (Suc k) ?f\<rparr>)"
    using extract_frames_prefix[of "ctx\<lparr>rx_cache := take (Suc k) ?f\<rparr>" "Suc k" r p "codec_checksum p" cfg]
      k n by (simp add: lf)
  have ih: "feed cfg (map (\<lambda>b. [b]) (drop (Suc k) ?f)) (ctx\<lparr>rx_cache := take (Suc k) ?f\<rparr>)
         = ([(r, p)], ctx\<lparr>payload_buf := p @ drop (length p) (payload_buf ctx), rx_cache := []\<rparr>)"
    using Suc.hyps(1)[of "Suc k"] Suc.hyps(2) k by (simp add: lf)
  show ?case
    by (simp add: dr poll_frames_def po ex ih)
qed


text \<open>
  C7. For every payload of 0 to BOOT_PAYLOAD_MAX_SIZE bytes and every 24-bit remaining
  count, the DataFrame with header, tail and the checksum the codec computes, fed to an
  empty cache in one chunk or one byte per poll, yields the same result: exactly one
  frame, with that remaining count and that payload, and the same final context. At every
  proper prefix of the frame the codec returns no frame and leaves the cache as it is.
\<close>

theorem feed_bytewise_eq_feed_chunk:
  assumes "length payload \<le> BOOT_PAYLOAD_MAX_SIZE cfg"
    and "11 \<le> BOOT_PACKET_MAX_SIZE cfg" and "BOOT_PACKET_MAX_SIZE cfg < 65536"
    and "remaining < 2 ^ 24"
    and "rx_cache ctx = []"
  shows "feed cfg [data_frame remaining payload (codec_checksum payload)] ctx
           = ([(remaining, payload)],
              ctx\<lparr>payload_buf := payload @ drop (length payload) (payload_buf ctx)\<rparr>)
         \<and> feed cfg (map (\<lambda>b. [b]) (data_frame remaining payload (codec_checksum payload))) ctx
           = ([(remaining, payload)],
              ctx\<lparr>payload_buf := payload @ drop (length payload) (payload_buf ctx)\<rparr>)
         \<and> (\<forall>k < length (data_frame remaining payload (codec_checksum payload)).
               bootloader_try_extract_frame cfg
                 (ctx\<lparr>rx_cache := take k (data_frame remaining payload (codec_checksum payload))\<rparr>)
               = (None,
                  ctx\<lparr>rx_cache := take k (data_frame remaining payload (codec_checksum payload))\<rparr>))"
proof -
  let ?f = "data_frame remaining payload (codec_checksum payload)"
  let ?final = "ctx\<lparr>payload_buf := payload @ drop (length payload) (payload_buf ctx)\<rparr>"
  have lf: "length ?f = 11 + length payload" by (rule length_data_frame)
  have n: "length payload < 65536" and fit: "11 + length payload \<le> BOOT_PACKET_MAX_SIZE cfg"
    using assms(1-3) by (simp_all add: BOOT_PAYLOAD_MAX_SIZE_def BOOT_FRAME_FIXED_SIZE_def)
  have fin: "ctx\<lparr>payload_buf := b, rx_cache := []\<rparr> = ctx\<lparr>payload_buf := b\<rparr>" for b
    using assms(5) by simp
  have id: "ctx\<lparr>rx_cache := []\<rparr> = ctx"
    using assms(5) by (cases ctx) simp
  have ne: "?f \<noteq> []" by (simp add: data_frame_def)
  have chunk: "feed cfg [?f] ctx = ([(remaining, payload)], ?final)"
    using extract_frames_whole[of "ctx\<lparr>rx_cache := ?f\<rparr>" remaining payload cfg]
      poll_whole[OF assms(5) ne, of cfg] fit assms(1) n assms(4)
    by (simp add: poll_frames_def lf fin)
  have "feed cfg (map (\<lambda>b. [b]) (drop 0 ?f)) (ctx\<lparr>rx_cache := take 0 ?f\<rparr>)
          = ([(remaining, payload)],
             ctx\<lparr>payload_buf := payload @ drop (length payload) (payload_buf ctx), rx_cache := []\<rparr>)"
    by (rule feed_bytewise_from[OF assms(1) n assms(4) fit]) simp
  then have bytes: "feed cfg (map (\<lambda>b. [b]) ?f) ctx = ([(remaining, payload)], ?final)"
    by (simp add: fin id)
  have pre: "bootloader_try_extract_frame cfg (ctx\<lparr>rx_cache := take k ?f\<rparr>)
               = (None, ctx\<lparr>rx_cache := take k ?f\<rparr>)" if "k < length ?f" for k
    using frame_prefix_none[of "ctx\<lparr>rx_cache := take k ?f\<rparr>" k remaining payload
        "codec_checksum payload" cfg] that assms(1) n
    by (simp add: lf)
  show ?thesis using chunk bytes pre by blast
qed

theorem feed_bytewise_eq_feed_chunk_witness:
  "feed stm32f4_config (map (\<lambda>b. [b]) (data_frame 5 (replicate 5 0xAA) (codec_checksum (replicate 5 0xAA))))
     idle_ctx
     = ([(5, replicate 5 0xAA)],
        idle_ctx\<lparr>payload_buf := replicate 5 0xAA @ drop 5 (payload_buf idle_ctx)\<rparr>)
   \<and> feed stm32f4_config [data_frame 0 (replicate 1002 0x11) (codec_checksum (replicate 1002 0x11))]
     idle_ctx
     = ([(0, replicate 1002 0x11)],
        idle_ctx\<lparr>payload_buf := replicate 1002 0x11 @ drop 1002 (payload_buf idle_ctx)\<rparr>)"
proof -
  have c: "11 \<le> BOOT_PACKET_MAX_SIZE stm32f4_config" "BOOT_PACKET_MAX_SIZE stm32f4_config < 65536"
    "rx_cache idle_ctx = []"
    by (simp_all add: stm32f4_config_def idle_ctx_def bootloader_reset_context_def)
  have a: "length (replicate 5 (0xAA :: byte)) \<le> BOOT_PAYLOAD_MAX_SIZE stm32f4_config"
    and b: "length (replicate 1002 (0x11 :: byte)) \<le> BOOT_PAYLOAD_MAX_SIZE stm32f4_config"
    by (simp_all add: BOOT_PAYLOAD_MAX_SIZE_def BOOT_FRAME_FIXED_SIZE_def stm32f4_config_def)
  have r: "(5 :: u32) < 2 ^ 24" "(0 :: u32) < 2 ^ 24" by simp_all
  show ?thesis
    using feed_bytewise_eq_feed_chunk[OF a c(1) c(2) r(1) c(3)]
      feed_bytewise_eq_feed_chunk[OF b c(1) c(2) r(2) c(3)]
    by simp
qed

section \<open>Flash stream writer: the three blocks\<close>

lemma fill_props:
  "fill_stream_cache data cache cl off = (cache', cl', off') \<Longrightarrow> cl \<le> 4 \<Longrightarrow> off \<le> length data \<Longrightarrow>
     length cache = 4 \<Longrightarrow>
     off' = off + min (4 - cl) (length data - off)
     \<and> cl' = cl + min (4 - cl) (length data - off)
     \<and> length cache' = 4
     \<and> take cl' cache' = take cl cache @ take (min (4 - cl) (length data - off)) (drop off data)"
proof (induction data cache cl off arbitrary: cache' cl' off' rule: fill_stream_cache.induct)
  case (1 data cache cl off)
  show ?case
  proof (cases "cl < 4 \<and> off < length data")
    case True
    then have rec: "fill_stream_cache data (cache[cl := data ! off]) (Suc cl) (Suc off) = (cache', cl', off')"
      using "1.prems"(1) by (subst (asm) fill_stream_cache.simps) simp
    have ih: "off' = Suc off + min (4 - Suc cl) (length data - Suc off)
     \<and> cl' = Suc cl + min (4 - Suc cl) (length data - Suc off)
     \<and> length cache' = 4
     \<and> take cl' cache' = take (Suc cl) (cache[cl := data ! off])
          @ take (min (4 - Suc cl) (length data - Suc off)) (drop (Suc off) data)"
      by (rule "1.IH"[OF True rec]) (use True "1.prems" in simp_all)
    have t1: "take (Suc cl) (cache[cl := data ! off]) = take cl cache @ [data ! off]"
      using True "1.prems"(4) by (simp add: take_Suc_conv_app_nth)
    have m: "min (4 - cl) (length data - off) = Suc (min (4 - Suc cl) (length data - Suc off))"
      using True by linarith
    have t2: "take (Suc k) (drop off data) = data ! off # take k (drop (Suc off) data)" for k
      using True by (metis Cons_nth_drop_Suc take_Suc_Cons)
    show ?thesis
      using ih by (auto simp: t1 m t2)
  next
    case False
    then have "(cache', cl', off') = (cache, cl, off)"
      using "1.prems"(1) by (subst (asm) fill_stream_cache.simps) auto
    then show ?thesis using False "1.prems" by (auto simp: min_def)
  qed
qed


lemma dvd4_unat_add:
  assumes "4 dvd unat (x :: u32)" and "4 dvd n"
  shows "4 dvd unat (x + of_nat n)"
proof -
  have "unat (x + of_nat n) = (unat x + n mod 2 ^ 32) mod 2 ^ 32"
    by (simp add: unat_word_ariths unat_of_nat)
  also have "\<dots> = (unat x + n) mod 2 ^ 32"
    by (simp add: mod_add_right_eq)
  finally have e: "unat (x + of_nat n) = (unat x + n) mod 2 ^ 32" .
  have "(4::nat) dvd 2 ^ 32" by simp
  then have "(4 dvd (unat x + n) mod 2 ^ 32) = (4 dvd unat x + n)"
    by (rule dvd_mod_iff)
  then show ?thesis using assms e by simp
qed

lemma dvd4_step:
  assumes "4 dvd unat (a - s :: u32)" and "4 dvd n"
  shows "4 dvd unat (a + of_nat n - s)"
proof -
  have e: "a + of_nat n - s = (a - s) + of_nat n" by simp
  show ?thesis unfolding e by (rule dvd4_unat_add[OF assms])
qed

lemma dvd4_step4:
  assumes "4 dvd unat (a - s :: u32)"
  shows "4 dvd unat (a + 4 - s)"
  using dvd4_step[OF assms, of 4] by simp

lemma aligned_len:
  assumes "n < 2 ^ 32"
  shows "unat ((of_nat n :: u32) AND NOT 3) = 4 * (n div 4)"
  using and_not3[OF assms] by presburger

lemma carry_block:
  assumes inv: "stream_cache_len ctx \<le> 3" "length (stream_cache ctx) = 4"
  obtains (empty) "stream_cache_len ctx = 0"
      "stream_write_carry p data (ctx, tr) = Inr (ctx, tr, 0)"
    | (partial) c1 where "0 < stream_cache_len ctx" "stream_cache_len ctx + length data < 4"
      "length c1 = 4" "take (stream_cache_len ctx + length data) c1 = pending ctx @ data"
      "stream_write_carry p data (ctx, tr) =
         Inr (ctx\<lparr>stream_cache := c1, stream_cache_len := stream_cache_len ctx + length data\<rparr>,
              tr, length data)"
    | (failed) c1 where "0 < stream_cache_len ctx" "4 \<le> stream_cache_len ctx + length data"
      "c1 = pending ctx @ take (4 - stream_cache_len ctx) data"
      "p (tr @ [FlashWrite (current_addr ctx) c1]) \<noteq> BOOT_PORT_OK"
      "stream_write_carry p data (ctx, tr) =
         Inl (p (tr @ [FlashWrite (current_addr ctx) c1]),
              ctx\<lparr>stream_cache := c1, stream_cache_len := 4\<rparr>,
              tr @ [FlashWrite (current_addr ctx) c1])"
    | (full) c1 where "0 < stream_cache_len ctx" "4 \<le> stream_cache_len ctx + length data"
      "c1 = pending ctx @ take (4 - stream_cache_len ctx) data"
      "p (tr @ [FlashWrite (current_addr ctx) c1]) = BOOT_PORT_OK"
      "stream_write_carry p data (ctx, tr) =
         Inr (ctx\<lparr>stream_cache := c1, stream_cache_len := 0, current_addr := current_addr ctx + 4\<rparr>,
              tr @ [FlashWrite (current_addr ctx) c1], 4 - stream_cache_len ctx)"
proof -
  obtain c1 cl1 off1 where
    fill: "fill_stream_cache data (stream_cache ctx) (stream_cache_len ctx) 0 = (c1, cl1, off1)"
    by (metis prod_cases3)
  have fp: "off1 = min (4 - stream_cache_len ctx) (length data)"
    "cl1 = stream_cache_len ctx + min (4 - stream_cache_len ctx) (length data)"
    "length c1 = 4"
    "take cl1 c1 = pending ctx @ take (min (4 - stream_cache_len ctx) (length data)) data"
    using fill_props[OF fill] inv by (auto simp: pending_def)
  consider "stream_cache_len ctx = 0"
    | "0 < stream_cache_len ctx" "stream_cache_len ctx + length data < 4"
    | "0 < stream_cache_len ctx" "4 \<le> stream_cache_len ctx + length data"
    by linarith
  then show thesis
  proof cases
    case 1
    then show ?thesis by (intro empty) (simp_all add: stream_write_carry_def)
  next
    case 2
    then have m: "min (4 - stream_cache_len ctx) (length data) = length data" by simp
    show ?thesis
      using 2 fp by (intro partial[of c1]) (simp_all add: stream_write_carry_def fill m Let_def)
  next
    case 3
    then have m: "min (4 - stream_cache_len ctx) (length data) = 4 - stream_cache_len ctx" by simp
    have cl1: "cl1 = 4" using fp(2) m inv by simp
    have off1: "off1 = 4 - stream_cache_len ctx" using fp(1) m by simp
    have c1: "c1 = pending ctx @ take (4 - stream_cache_len ctx) data"
      using fp(3,4) by (simp add: cl1 m)
    show ?thesis
    proof (cases "p (tr @ [FlashWrite (current_addr ctx) c1]) = BOOT_PORT_OK")
      case True
      show ?thesis
        using 3 True fp(3)
        by (intro full[OF _ _ c1]) (simp_all add: stream_write_carry_def fill Let_def cl1 off1 port_defs)
    next
      case False
      show ?thesis
        using 3 False fp(3)
        by (intro failed[OF _ _ c1]) (simp_all add: stream_write_carry_def fill Let_def cl1 off1 port_defs)
    qed
  qed
qed

lemma aligned_block:
  assumes "length data < 2 ^ 32" and q: "q = 4 * ((length data - off) div 4)"
  shows "stream_write_aligned p data (ctx, tr, off) =
     (if 0 < q then
        (if p (tr @ [FlashWrite (current_addr ctx) (take q (drop off data))]) \<noteq> BOOT_PORT_OK
         then Inl (p (tr @ [FlashWrite (current_addr ctx) (take q (drop off data))]), ctx,
                   tr @ [FlashWrite (current_addr ctx) (take q (drop off data))])
         else Inr (ctx\<lparr>current_addr := current_addr ctx + of_nat q\<rparr>,
                   tr @ [FlashWrite (current_addr ctx) (take q (drop off data))],
                   off + q, length data - off - q))
      else Inr (ctx, tr, off, length data - off))"
proof -
  have "length data - off < 2 ^ 32" using assms(1) by linarith
  then have al: "unat ((of_nat (length data - off) :: u32) AND NOT 3) = q"
    unfolding q by (rule aligned_len)
  show ?thesis
    unfolding stream_write_aligned_def Let_def prod.case al boot_port_flash_write_def
    by (rule refl)
qed

section \<open>Flash stream writer: invariant\<close>

lemma aligned_writeI:
  assumes "4 dvd unat (a - BOOT_APP_START_ADDR cfg)" and "4 dvd length bs"
  shows "aligned_write cfg (FlashWrite a bs)"
proof -
  have "4 dvd unat a" if "4 dvd unat (BOOT_APP_START_ADDR cfg)"
    using dvd4_unat_add[OF assms(1) that] by simp
  then show ?thesis using assms by (simp add: aligned_write_def)
qed




lemma stream_flush_inv:
  assumes inv: "stream_inv cfg ctx"
    and res: "bootloader_stream_flush p (ctx, tr) = (st, ctx', tr')"
  shows "(\<exists>w. tr' = tr @ w \<and> (\<forall>e\<in>set w. aligned_write cfg e))
         \<and> (st = BOOT_PORT_OK \<longrightarrow> stream_inv cfg ctx')"
proof (cases "stream_cache_len ctx = 0")
  case True
  then show ?thesis using res inv by (auto simp: bootloader_stream_flush_def)
next
  case False
  have a4: "4 dvd unat (current_addr ctx - BOOT_APP_START_ADDR cfg)"
    and cl: "stream_cache_len ctx \<le> 3" and lc: "length (stream_cache ctx) = 4"
    using inv by (simp_all add: stream_inv_def)
  let ?pad = "take (stream_cache_len ctx) (stream_cache ctx) @ replicate (4 - stream_cache_len ctx) 0xFF"
  have "length ?pad = 4" using cl lc by simp
  then have aw: "aligned_write cfg (FlashWrite (current_addr ctx) ?pad)"
    using a4 by (intro aligned_writeI) simp_all
  show ?thesis
    using res False aw dvd4_step4[OF a4] lc
    by (auto simp: bootloader_stream_flush_def Let_def port_defs stream_inv_def split: if_splits)
qed



section \<open>Flash stream writer: what is programmed\<close>

lemma flash_program_words_append:
  "4 dvd length xs \<Longrightarrow>
   flash_program_words a (xs @ ys) = flash_program_words a xs @ flash_program_words (a + of_nat (length xs)) ys"
proof (induction a xs rule: flash_program_words.induct)
  case (1 addr data)
  show ?case
  proof (cases "length data < 4")
    case True
    with "1.prems" have "length data = 0" by presburger
    then have "data = []" by simp
    then show ?thesis by (simp add: flash_program_words.simps[of addr "[]"])
  next
    case False
    then have d: "4 dvd length (drop 4 data)" using "1.prems" by (simp add: dvd_diff_nat)
    have ih: "flash_program_words (addr + 4) (drop 4 data @ ys) =
        flash_program_words (addr + 4) (drop 4 data)
          @ flash_program_words (addr + 4 + of_nat (length (drop 4 data))) ys"
      by (rule "1.IH"[OF False d])
    have "length data = 4 + (length data - 4)" using False by simp
    then have "(of_nat (length data) :: u32) = 4 + of_nat (length data - 4)"
      by (metis of_nat_add of_nat_numeral)
    then have a: "addr + 4 + of_nat (length data - 4) = addr + of_nat (length data)"
      by (simp add: add.assoc)
    have l: "flash_program_words addr (data @ ys) =
        (addr, take 4 data) # flash_program_words (addr + 4) (drop 4 data @ ys)"
      using False by (subst flash_program_words.simps) simp
    have r: "flash_program_words addr data =
        (addr, take 4 data) # flash_program_words (addr + 4) (drop 4 data)"
      using False by (subst flash_program_words.simps) simp
    show ?thesis by (simp add: l r ih a)
  qed
qed

lemma contiguous_append:
  "contiguous a (w1 @ w2) =
     (contiguous a w1 \<and> contiguous (a + of_nat (length (flash_bytes w1))) w2)"
  by (induction a w1 rule: contiguous.induct) (auto simp: add.assoc)

lemma flash_bytes_append: "flash_bytes (w1 @ w2) = flash_bytes w1 @ flash_bytes w2"
  by (induction w1 rule: flash_bytes.induct) auto

lemma programmed_words_append:
  "programmed_words (w1 @ w2) = programmed_words w1 @ programmed_words w2"
  by (induction w1 rule: programmed_words.induct) auto

lemma contiguous_dvd: "contiguous a w \<Longrightarrow> 4 dvd length (flash_bytes w)"
  by (induction a w rule: contiguous.induct) auto

lemma contiguous_words:
  "contiguous a w \<Longrightarrow> programmed_words w = flash_program_words a (flash_bytes w)"
proof (induction a w rule: contiguous.induct)
  case (1 a)
  then show ?case by (simp add: flash_program_words.simps[of a "[]"])
next
  case (2 a b bs es)
  then show ?case by (simp add: flash_program_words_append)
qed simp_all

lemma contiguous_flash_only: "contiguous a w \<Longrightarrow> \<forall>e\<in>set w. is_flash_write e"
  by (induction a w rule: contiguous.induct) (auto simp: is_flash_write_def)


lemma tail_ok:
  assumes lc: "length (stream_cache c) = 4" and cl: "stream_cache_len c = 0"
    and r: "length (drop off data) = r" and r4: "r < 4"
  shows "\<exists>c'. stream_write_tail data (c, t, off, r) = (BOOT_PORT_OK, c', t)
           \<and> pending c' = drop off data
           \<and> stream_cache_len c' = r
           \<and> length (stream_cache c') = 4
           \<and> current_addr c' = current_addr c"
proof (cases "0 < r")
  case True
  let ?c = "c\<lparr>stream_cache := take r (drop off data) @ drop r (stream_cache c), stream_cache_len := r\<rparr>"
  have 1: "stream_write_tail data (c, t, off, r) = (BOOT_PORT_OK, ?c, t)"
    using True by (simp add: stream_write_tail_def)
  have t: "take r (drop off data) = drop off data" using r by simp
  have 2: "pending ?c = drop off data"
    using r by (simp add: pending_def t)
  have 3: "length (stream_cache ?c) = 4" using r r4 lc by (simp add: t)
  show ?thesis using 1 2 3 by (intro exI[of _ ?c]) simp
next
  case False
  then have "r = 0" by simp
  then have "stream_write_tail data (c, t, off, r) = (BOOT_PORT_OK, c, t)" "drop off data = []"
    using r by (simp_all add: stream_write_tail_def)
  then show ?thesis using lc cl \<open>r = 0\<close> by (intro exI[of _ c]) (simp add: pending_def)
qed


lemma rest_ok:
  assumes ok: "\<And>h. p h = BOOT_PORT_OK"
    and cl: "stream_cache_len c = 0" and lc: "length (stream_cache c) = 4"
    and len: "length data < 2 ^ 32" and off: "off \<le> length data"
    and q: "q = 4 * ((length data - off) div 4)"
  shows "\<exists>c' w. (case stream_write_aligned p data (c, t, off) of
                    Inl r \<Rightarrow> r | Inr s2 \<Rightarrow> stream_write_tail data s2) = (BOOT_PORT_OK, c', t @ w)
           \<and> contiguous (current_addr c) w
           \<and> flash_bytes w = take q (drop off data)
           \<and> pending c' = drop q (drop off data)
           \<and> stream_cache_len c' = (length data - off) mod 4
           \<and> length (stream_cache c') = 4
           \<and> current_addr c' = current_addr c + of_nat q"
proof -
  define n where "n = length data - off"
  have q': "q = 4 * (n div 4)" unfolding q n_def by (rule refl)
  have qn: "q \<le> n" "n - q = n mod 4" "4 dvd q" "n - q < 4" unfolding q' by presburger+
  have ab: "stream_write_aligned p data (c, t, off) =
     (if 0 < q then
         Inr (c\<lparr>current_addr := current_addr c + of_nat q\<rparr>,
              t @ [FlashWrite (current_addr c) (take q (drop off data))], off + q, n - q)
      else Inr (c, t, off, n))"
    unfolding aligned_block[OF len q, of p c t] n_def by (simp only: ok not_not if_False simp_thms)
  let ?W = "FlashWrite (current_addr c) (take q (drop off data))"
  have lw: "length (take q (drop off data)) = q" using qn(1) unfolding n_def by simp
  have ld: "length (drop (off + q) data) = n - q" unfolding n_def by simp
  have dd: "drop (off + q) data = drop q (drop off data)" by (simp only: drop_drop add.commute)
  show ?thesis
  proof (cases "0 < q")
    case True
    let ?c1 = "c\<lparr>current_addr := current_addr c + of_nat q\<rparr>"
    have comp: "(case stream_write_aligned p data (c, t, off) of
                    Inl r \<Rightarrow> r | Inr s2 \<Rightarrow> stream_write_tail data s2)
                 = stream_write_tail data (?c1, t @ [?W], off + q, n - q)"
      unfolding ab using True by simp
    have "length (stream_cache ?c1) = 4" "stream_cache_len ?c1 = 0" using lc cl by simp_all
    from tail_ok[OF this ld qn(4), of "t @ [?W]"]
    obtain c' where c': "stream_write_tail data (?c1, t @ [?W], off + q, n - q) = (BOOT_PORT_OK, c', t @ [?W])"
      "pending c' = drop (off + q) data" "stream_cache_len c' = n - q"
      "length (stream_cache c') = 4" "current_addr c' = current_addr ?c1"
      by blast
    show ?thesis
    proof (intro exI conjI)
      show "(case stream_write_aligned p data (c, t, off) of
                    Inl r \<Rightarrow> r | Inr s2 \<Rightarrow> stream_write_tail data s2) = (BOOT_PORT_OK, c', t @ [?W])"
        unfolding comp by (rule c'(1))
      show "contiguous (current_addr c) [?W]" using qn(3) lw by simp
      show "flash_bytes [?W] = take q (drop off data)" by simp
      show "pending c' = drop q (drop off data)" unfolding c'(2) by (rule dd)
      show "stream_cache_len c' = (length data - off) mod 4"
        using c'(3) qn(2) unfolding n_def by simp
      show "length (stream_cache c') = 4" by (rule c'(4))
      show "current_addr c' = current_addr c + of_nat q" unfolding c'(5) by simp
    qed
  next
    case False
    then have q0: "q = 0" by simp
    have comp: "(case stream_write_aligned p data (c, t, off) of
                    Inl r \<Rightarrow> r | Inr s2 \<Rightarrow> stream_write_tail data s2)
                 = stream_write_tail data (c, t, off, n)"
      unfolding ab using False by simp
    have ld0: "length (drop off data) = n" unfolding n_def by simp
    have n4: "n < 4" using qn(4) q0 by simp
    have nm: "n = (length data - off) mod 4" using n4 unfolding n_def by simp
    from tail_ok[OF lc cl ld0 n4, of t]
    obtain c' where c': "stream_write_tail data (c, t, off, n) = (BOOT_PORT_OK, c', t)"
      "pending c' = drop off data" "stream_cache_len c' = n"
      "length (stream_cache c') = 4" "current_addr c' = current_addr c"
      by blast
    show ?thesis
    proof (intro exI conjI)
      show "(case stream_write_aligned p data (c, t, off) of
                    Inl r \<Rightarrow> r | Inr s2 \<Rightarrow> stream_write_tail data s2) = (BOOT_PORT_OK, c', t @ [])"
        unfolding comp using c'(1) by simp
      show "contiguous (current_addr c) []" by simp
      show "flash_bytes [] = take q (drop off data)" unfolding q0 by simp
      show "pending c' = drop q (drop off data)" unfolding c'(2) q0 by simp
      show "stream_cache_len c' = (length data - off) mod 4" unfolding c'(3) by (rule nm)
      show "length (stream_cache c') = 4" by (rule c'(4))
      show "current_addr c' = current_addr c + of_nat q" unfolding c'(5) q0 by simp
    qed
  qed
qed


lemma stream_write_ok:
  assumes ok: "\<And>h. p h = BOOT_PORT_OK"
    and cl: "stream_cache_len ctx \<le> 3" and lc: "length (stream_cache ctx) = 4"
    and len: "length data < 2 ^ 32"
    and T: "buf = pending ctx @ data" and Q: "q = 4 * (length buf div 4)"
  shows "\<exists>ctx' w. bootloader_stream_write p data (ctx, tr) = (BOOT_PORT_OK, ctx', tr @ w)
           \<and> contiguous (current_addr ctx) w
           \<and> flash_bytes w = take q buf
           \<and> pending ctx' = drop q buf
           \<and> stream_cache_len ctx' = length buf mod 4
           \<and> length (stream_cache ctx') = 4
           \<and> current_addr ctx' = current_addr ctx + of_nat q"
proof -
  define k where "k = stream_cache_len ctx"
  define m where "m = length data"
  have lp: "length (pending ctx) = k" using cl lc by (simp add: pending_def k_def)
  have lt: "length buf = k + m" by (simp add: T lp m_def)
  have Q': "q = 4 * ((k + m) div 4)" unfolding Q lt by (rule refl)
  have k3: "k \<le> 3" using cl by (simp add: k_def)
  show ?thesis
  proof (cases "data = []")
    case True
    then have m0: "m = 0" by (simp add: m_def)
    have q0: "q = 0" unfolding Q' m0 using k3 by simp
    have km: "(k + m) mod 4 = k" unfolding m0 using k3 by simp
    show ?thesis
    proof (intro exI conjI)
      show "bootloader_stream_write p data (ctx, tr) = (BOOT_PORT_OK, ctx, tr @ [])"
        using True by (simp add: bootloader_stream_write_def)
      show "contiguous (current_addr ctx) []" by simp
      show "flash_bytes [] = take q buf" unfolding q0 by simp
      show "pending ctx = drop q buf" unfolding q0 T using True by simp
      show "stream_cache_len ctx = length buf mod 4" unfolding lt km by (simp add: k_def)
      show "length (stream_cache ctx) = 4" by (rule lc)
      show "current_addr ctx = current_addr ctx + of_nat q" unfolding q0 by simp
    qed
  next
    case False
    then have sw: "bootloader_stream_write p data (ctx, tr) =
        (case stream_write_carry p data (ctx, tr) of
           Inl r \<Rightarrow> r
         | Inr s1 \<Rightarrow> (case stream_write_aligned p data s1 of
                       Inl r \<Rightarrow> r | Inr s2 \<Rightarrow> stream_write_tail data s2))"
      by (simp add: bootloader_stream_write_def)
    show ?thesis
    proof (rule carry_block[OF cl lc, of p data tr], goal_cases empty partial failed full)
      case empty
      then have k0: "k = 0" by (simp add: k_def)
      have tot: "buf = data" unfolding T using empty(1) by (simp add: pending_def)
      have q0: "q = 4 * ((length data - 0) div 4)" unfolding Q' k0 by (simp add: m_def)
      have o0: "0 \<le> length data" by simp
      from rest_ok[where t = tr and p = p, OF ok empty(1) lc len o0 q0]
      obtain c' w where r: "(case stream_write_aligned p data (ctx, tr, 0) of
                    Inl r \<Rightarrow> r | Inr s2 \<Rightarrow> stream_write_tail data s2) = (BOOT_PORT_OK, c', tr @ w)"
        "contiguous (current_addr ctx) w" "flash_bytes w = take q (drop 0 data)"
        "pending c' = drop q (drop 0 data)" "stream_cache_len c' = (length data - 0) mod 4"
        "length (stream_cache c') = 4" "current_addr c' = current_addr ctx + of_nat q"
        by auto
      show ?thesis
      proof (intro exI conjI)
        show "bootloader_stream_write p data (ctx, tr) = (BOOT_PORT_OK, c', tr @ w)"
          unfolding sw empty(2) using r(1) by simp
        show "contiguous (current_addr ctx) w" by (rule r(2))
        show "flash_bytes w = take q buf" unfolding tot using r(3) by simp
        show "pending c' = drop q buf" unfolding tot using r(4) by simp
        show "stream_cache_len c' = length buf mod 4" unfolding tot using r(5) by simp
        show "length (stream_cache c') = 4" by (rule r(6))
        show "current_addr c' = current_addr ctx + of_nat q" by (rule r(7))
      qed
    next
      case (partial c1)
      let ?c = "ctx\<lparr>stream_cache := c1, stream_cache_len := stream_cache_len ctx + length data\<rparr>"
      have km4: "k + m < 4" using partial(2) by (simp add: k_def m_def)
      then have q0: "q = 0" unfolding Q' by simp
      have km: "(k + m) mod 4 = k + m" using km4 by simp
      have z: "(0::nat) = 4 * ((length data - length data) div 4)" by simp
      have al: "stream_write_aligned p data (?c, tr, length data) = Inr (?c, tr, length data, 0)"
        unfolding aligned_block[OF len z, of p ?c tr] by simp
      show ?thesis
      proof (intro exI conjI)
        show "bootloader_stream_write p data (ctx, tr) = (BOOT_PORT_OK, ?c, tr @ [])"
          unfolding sw partial(5) by (simp add: al stream_write_tail_def)
        show "contiguous (current_addr ctx) []" by simp
        show "flash_bytes [] = take q buf" unfolding q0 by simp
        show "pending ?c = drop q buf" unfolding q0 T using partial(4) by (simp add: pending_def)
        show "stream_cache_len ?c = length buf mod 4" unfolding lt km by (simp add: k_def m_def)
        show "length (stream_cache ?c) = 4" using partial(3) by simp
        show "current_addr ?c = current_addr ctx + of_nat q" unfolding q0 by simp
      qed
    next
      case (failed c1)
      then show ?thesis using ok by simp
    next
      case (full c1)
      let ?c = "ctx\<lparr>stream_cache := c1, stream_cache_len := 0, current_addr := current_addr ctx + 4\<rparr>"
      let ?W = "FlashWrite (current_addr ctx) c1"
      define j where "j = 4 - k"
      define q' where "q' = 4 * ((m - j) div 4)"
      have km4: "4 \<le> k + m" using full(2) by (simp add: k_def m_def)
      have kpos: "0 < k" using full(1) by (simp add: k_def)
      have jm: "j \<le> m" "k + j = 4" using km4 k3 unfolding j_def by linarith+
      have kmx: "k + m = 4 + (m - j)" using jm by linarith
      have dv: "(4 + x) div 4 = 1 + x div (4::nat)" for x by simp
      have qq: "q = 4 + q'" "(k + m) mod 4 = (m - j) mod 4"
        unfolding Q' q'_def kmx dv by simp_all
      have l1: "length c1 = 4" unfolding full(3) using lp jm by (simp add: j_def k_def m_def)
      have c1t: "c1 = take 4 buf" unfolding full(3) T using lp jm
        by (simp add: j_def k_def)
      have dt: "drop 4 buf = drop j data" unfolding T using lp jm
        by (simp add: j_def k_def)
      have q'': "q' = 4 * ((length data - (4 - stream_cache_len ctx)) div 4)"
        unfolding q'_def j_def k_def m_def by (rule refl)
      have offle: "4 - stream_cache_len ctx \<le> length data" using jm(1) by (simp add: j_def k_def m_def)
      have "stream_cache_len ?c = 0" "length (stream_cache ?c) = 4" using l1 by simp_all
      from rest_ok[where t = "tr @ [?W]" and p = p, OF ok this len offle q'']
      obtain c' w where r: "(case stream_write_aligned p data (?c, tr @ [?W], 4 - stream_cache_len ctx) of
                    Inl r \<Rightarrow> r | Inr s2 \<Rightarrow> stream_write_tail data s2) = (BOOT_PORT_OK, c', (tr @ [?W]) @ w)"
        "contiguous (current_addr ?c) w" "flash_bytes w = take q' (drop (4 - stream_cache_len ctx) data)"
        "pending c' = drop q' (drop (4 - stream_cache_len ctx) data)"
        "stream_cache_len c' = (length data - (4 - stream_cache_len ctx)) mod 4"
        "length (stream_cache c') = 4" "current_addr c' = current_addr ?c + of_nat q'"
        by auto
      have jj: "4 - stream_cache_len ctx = j" by (simp add: j_def k_def)
      show ?thesis
      proof (intro exI conjI)
        show "bootloader_stream_write p data (ctx, tr) = (BOOT_PORT_OK, c', tr @ (?W # w))"
          unfolding sw full(5) using r(1) by simp
        show "contiguous (current_addr ctx) (?W # w)" using r(2) l1 by simp
        have "take q buf = take 4 buf @ take q' (drop 4 buf)"
          unfolding qq(1) by (rule take_add)
        then show "flash_bytes (?W # w) = take q buf"
          using r(3) by (simp add: c1t dt jj)
        have "drop q buf = drop q' (drop 4 buf)"
          unfolding qq(1) by (simp only: drop_drop add.commute)
        then show "pending c' = drop q buf" using r(4) by (simp only: dt jj)
        show "stream_cache_len c' = length buf mod 4"
          unfolding lt qq(2) using r(5) by (simp add: jj m_def)
        show "length (stream_cache c') = 4" by (rule r(6))
        show "current_addr c' = current_addr ctx + of_nat q"
          unfolding r(7) qq(1) by simp
      qed
    qed
  qed
qed

section \<open>Flash stream writer: a whole transfer\<close>

lemma flush_ok:
  assumes ok: "\<And>h. p h = BOOT_PORT_OK"
    and cl: "stream_cache_len ctx \<le> 3" and lc: "length (stream_cache ctx) = 4"
  shows "\<exists>ctx' w. bootloader_stream_flush p (ctx, tr) = (BOOT_PORT_OK, ctx', tr @ w)
           \<and> contiguous (current_addr ctx) w
           \<and> flash_bytes w = pending ctx @ replicate ((4 - length (pending ctx) mod 4) mod 4) 0xFF
           \<and> stream_cache_len ctx' = 0
           \<and> current_addr ctx' = current_addr ctx + of_nat (length (flash_bytes w))"
proof -
  define k where "k = stream_cache_len ctx"
  have lp: "length (pending ctx) = k" using cl lc by (simp add: pending_def k_def)
  have k3: "k \<le> 3" using cl by (simp add: k_def)
  show ?thesis
  proof (cases "k = 0")
    case True
    then have "pending ctx = []" using lp by simp
    then show ?thesis
      using True
      by (intro exI[of _ ctx] exI[of _ "[]"]) (simp add: bootloader_stream_flush_def k_def)
  next
    case False
    then have pad: "(4 - k mod 4) mod 4 = 4 - k" using k3 by simp
    let ?b = "pending ctx @ replicate (4 - k) 0xFF"
    have lb: "length ?b = 4" using lp k3 by simp
    have pk: "take k (stream_cache ctx) = pending ctx" by (simp add: pending_def k_def)
    show ?thesis
      using False lb pk
      by (intro exI[of _ "ctx\<lparr>current_addr := current_addr ctx + 4, stream_cache_len := 0\<rparr>"]
               exI[of _ "[FlashWrite (current_addr ctx) ?b]"])
         (simp add: bootloader_stream_flush_def Let_def port_defs ok lp pad k_def[symmetric])
  qed
qed


lemma fpw_unfold:
  "4 \<le> length bs \<Longrightarrow>
   flash_program_words a bs = (a, take 4 bs) # flash_program_words (a + 4) (drop 4 bs)"
  by (subst flash_program_words.simps) simp

lemma fpw_nil: "length bs < 4 \<Longrightarrow> flash_program_words a bs = []"
  by (subst flash_program_words.simps) simp

lemma fpw_length:
  "4 dvd length bs \<Longrightarrow> length (flash_program_words a bs) = length bs div 4"
proof (induction a bs rule: flash_program_words.induct)
  case (1 addr data)
  show ?case
  proof (cases "length data < 4")
    case True
    then show ?thesis by (simp add: fpw_nil)
  next
    case False
    then have d: "4 dvd length (drop 4 data)" using "1.prems" by (simp add: dvd_diff_nat)
    have l: "length data = 4 + (length data - 4)" using False by simp
    have "length data div 4 = Suc ((length data - 4) div 4)"
      by (subst l) simp
    then show ?thesis
      using False "1.IH"[OF False d] by (simp add: fpw_unfold)
  qed
qed

lemma fpw_concat:
  "4 dvd length bs \<Longrightarrow> concat (map snd (flash_program_words a bs)) = bs"
proof (induction a bs rule: flash_program_words.induct)
  case (1 addr data)
  show ?case
  proof (cases "length data < 4")
    case True
    with "1.prems" have "length data = 0" by presburger
    then show ?thesis by (simp add: fpw_nil)
  next
    case False
    then have d: "4 dvd length (drop 4 data)" using "1.prems" by (simp add: dvd_diff_nat)
    show ?thesis
      using False "1.IH"[OF False d] by (simp add: fpw_unfold)
  qed
qed

lemma fpw_nth:
  "4 dvd length bs \<Longrightarrow> k < length bs div 4 \<Longrightarrow>
   flash_program_words a bs ! k = (a + of_nat (4 * k), take 4 (drop (4 * k) bs))"
proof (induction a bs arbitrary: k rule: flash_program_words.induct)
  case (1 addr data)
  from "1.prems"(2) have ge: "4 \<le> length data" by (cases "length data < 4") simp_all
  then have nl: "\<not> length data < 4" by simp
  have d: "4 dvd length (drop 4 data)" using "1.prems"(1) ge by (simp add: dvd_diff_nat)
  show ?case
  proof (cases k)
    case 0
    then show ?thesis using ge by (simp add: fpw_unfold)
  next
    case (Suc k')
    have l: "length data = 4 + (length data - 4)" using ge by simp
    have "length data div 4 = Suc ((length data - 4) div 4)"
      by (subst l) simp
    then have k': "k' < length (drop 4 data) div 4" using "1.prems"(2) Suc by simp
    have a: "addr + 4 + of_nat (4 * k') = addr + of_nat (4 * Suc k')"
      by (simp add: add.assoc)
    have dd: "drop (4 * k') (drop 4 data) = drop (4 * Suc k') data"
      by (simp add: add.commute)
    show ?thesis
      using "1.IH"[OF nl d k'] ge Suc unfolding a dd by (simp add: fpw_unfold)
  qed
qed

lemma fpw_map:
  assumes "4 dvd length bs"
  shows "flash_program_words a bs =
           map (\<lambda>k. (a + of_nat (4 * k), take 4 (drop (4 * k) bs))) [0..<length bs div 4]"
  by (rule nth_equalityI) (simp_all add: fpw_length[OF assms] fpw_nth[OF assms])

lemma pad_len_shift: "pad_len (4 * a + n) = pad_len n"
  by (simp add: pad_len_def)

lemma stream_all_ok:
  assumes ok: "\<And>h. p h = BOOT_PORT_OK"
    and len: "\<forall>c\<in>set chunks. length c < 2 ^ 32"
    and cl: "stream_cache_len ctx \<le> 3" and lc: "length (stream_cache ctx) = 4"
  shows "\<exists>ctx' w. stream_all p chunks (ctx, tr) = (BOOT_PORT_OK, ctx', tr @ w)
           \<and> contiguous (current_addr ctx) w
           \<and> flash_bytes w = (pending ctx @ concat chunks)
                 @ replicate (pad_len (length (pending ctx @ concat chunks))) 0xFF
           \<and> stream_cache_len ctx' = 0
           \<and> current_addr ctx' = current_addr ctx + of_nat (length (flash_bytes w))"
  using len cl lc
proof (induction chunks arbitrary: ctx tr)
  case Nil
  from flush_ok[where p = p and tr = tr, OF ok Nil(2) Nil(3)]
  show ?case by (simp add: pad_len_def)
next
  case (Cons c cs)
  define buf where "buf = pending ctx @ c"
  define q where "q = 4 * (length buf div 4)"
  have lenc: "length c < 2 ^ 32" using Cons.prems(1) by simp
  from stream_write_ok[where p = p and tr = tr, OF ok Cons.prems(2) Cons.prems(3) lenc buf_def q_def]
  obtain ctx1 w1 where s1: "bootloader_stream_write p c (ctx, tr) = (BOOT_PORT_OK, ctx1, tr @ w1)"
    "contiguous (current_addr ctx) w1" "flash_bytes w1 = take q buf" "pending ctx1 = drop q buf"
    "stream_cache_len ctx1 = length buf mod 4" "length (stream_cache ctx1) = 4"
    "current_addr ctx1 = current_addr ctx + of_nat q"
    by auto
  have cl1: "stream_cache_len ctx1 \<le> 3" unfolding s1(5) by simp
  have lens: "\<forall>c\<in>set cs. length c < 2 ^ 32" using Cons.prems(1) by simp
  from Cons.IH[OF lens cl1 s1(6), of "tr @ w1"]
  obtain ctx' w2 where s2: "stream_all p cs (ctx1, tr @ w1) = (BOOT_PORT_OK, ctx', (tr @ w1) @ w2)"
    "contiguous (current_addr ctx1) w2"
    "flash_bytes w2 = (pending ctx1 @ concat cs)
       @ replicate (pad_len (length (pending ctx1 @ concat cs))) 0xFF"
    "stream_cache_len ctx' = 0"
    "current_addr ctx' = current_addr ctx1 + of_nat (length (flash_bytes w2))"
    by auto
  have qle: "q \<le> length buf" unfolding q_def by simp
  have lw1: "length (flash_bytes w1) = q" unfolding s1(3) using qle by simp
  have split: "length buf = q + length buf mod 4" unfolding q_def by simp
  have ldrop: "length (drop q buf) = length buf mod 4" using split by simp
  have pl: "pad_len (length (pending ctx1 @ concat cs)) = pad_len (length (pending ctx @ concat (c # cs)))"
  proof -
    have "length (pending ctx @ concat (c # cs)) = length buf + length (concat cs)"
      by (simp add: buf_def)
    also have "\<dots> = 4 * (length buf div 4) + (length buf mod 4 + length (concat cs))"
      by simp
    finally have "pad_len (length (pending ctx @ concat (c # cs)))
                    = pad_len (length buf mod 4 + length (concat cs))"
      by (simp only: pad_len_shift)
    moreover have "length buf - q = length buf mod 4" using split by linarith
    ultimately show ?thesis by (simp add: s1(4))
  qed
  have bytes: "take q buf @ drop q buf @ concat cs = pending ctx @ concat (c # cs)"
  proof -
    have "take q buf @ drop q buf @ concat cs = (take q buf @ drop q buf) @ concat cs"
      by (simp only: append_assoc)
    also have "\<dots> = buf @ concat cs" by (simp only: append_take_drop_id)
    also have "\<dots> = pending ctx @ concat (c # cs)" by (simp add: buf_def)
    finally show ?thesis .
  qed
  show ?case
  proof (intro exI conjI)
    show "stream_all p (c # cs) (ctx, tr) = (BOOT_PORT_OK, ctx', tr @ (w1 @ w2))"
      using s1(1) s2(1) by simp
    show "contiguous (current_addr ctx) (w1 @ w2)"
      using s1(2) s2(2) by (simp add: contiguous_append lw1 s1(7))
    show "flash_bytes (w1 @ w2) = (pending ctx @ concat (c # cs))
            @ replicate (pad_len (length (pending ctx @ concat (c # cs)))) 0xFF"
    proof -
      have "flash_bytes (w1 @ w2) =
              take q buf @ (pending ctx1 @ concat cs)
                @ replicate (pad_len (length (pending ctx @ concat (c # cs)))) 0xFF"
        unfolding flash_bytes_append s1(3) s2(3) pl by (rule refl)
      also have "\<dots> = take q buf @ (drop q buf @ concat cs)
                @ replicate (pad_len (length (pending ctx @ concat (c # cs)))) 0xFF"
        unfolding s1(4) by (rule refl)
      also have "\<dots> = (take q buf @ drop q buf @ concat cs)
                @ replicate (pad_len (length (pending ctx @ concat (c # cs)))) 0xFF"
        by (simp only: append_assoc)
      finally show ?thesis unfolding bytes .
    qed
    show "stream_cache_len ctx' = 0" by (rule s2(4))
    show "current_addr ctx' = current_addr ctx + of_nat (length (flash_bytes (w1 @ w2)))"
      unfolding s2(5) s1(7) flash_bytes_append by (simp add: lw1)
  qed
qed


lemma pad_total: "n + pad_len n = 4 * ((n + 3) div 4)"
proof -
  define q r where "q = n div 4" and "r = n mod 4"
  have n: "n = 4 * q + r" by (simp add: q_def r_def)
  have r4: "r < 4" by (simp add: r_def)
  have m: "(4 * q + r) mod 4 = r" using r4 by simp
  have d: "(4 * q + r + 3) div 4 = q + (r + 3) div 4" by simp
  from r4 have "r = 0 \<or> r = 1 \<or> r = 2 \<or> r = 3" by linarith
  then show ?thesis unfolding n pad_len_def m d by (elim disjE) simp_all
qed

text \<open>
  C2. A transfer through the writer: every chunk (each shorter than 2^32 bytes, the range of
  the len parameter) goes through bootloader_stream_write in arrival order, then
  bootloader_stream_flush, on a port whose writes succeed, from a context with an empty
  carry and a cursor that is a multiple of 4. With L the total length of the chunks: every
  call returns BOOT_PORT_OK, the events added are flash writes only, they program exactly
  ceil(L/4) = (L + 3) div 4 words of 4 bytes, the k-th at cursor + 4k, each address a
  multiple of 4; the concatenation of the programmed words, cut to L bytes, is the
  concatenation of the chunks, every byte after the first L is 0xFF (there are
  4 * ceil(L/4) - L = (4 - L mod 4) mod 4 of them, none when 4 divides L), the cursor ends
  4 * ceil(L/4) further and the carry is empty again.
\<close>

theorem stream_all_programs_input:
  assumes ok: "\<And>h. p h = BOOT_PORT_OK"
    and len: "\<forall>c\<in>set chunks. length c < 2 ^ 32"
    and fresh: "stream_cache_len ctx = 0"
    and lc: "length (stream_cache ctx) = 4"
    and al: "4 dvd unat (current_addr ctx)"
  shows "\<exists>ctx' w. stream_all p chunks (ctx, tr) = (BOOT_PORT_OK, ctx', tr @ w)
           \<and> (\<forall>e\<in>set w. is_flash_write e)
           \<and> length (programmed_words w) = (length (concat chunks) + 3) div 4
           \<and> (\<forall>(a, bs)\<in>set (programmed_words w). 4 dvd unat a \<and> length bs = 4)
           \<and> map fst (programmed_words w)
               = map (\<lambda>k. current_addr ctx + of_nat (4 * k))
                   [0..<(length (concat chunks) + 3) div 4]
           \<and> take (length (concat chunks)) (concat (map snd (programmed_words w)))
               = concat chunks
           \<and> drop (length (concat chunks)) (concat (map snd (programmed_words w)))
               = replicate (pad_len (length (concat chunks))) 0xFF
           \<and> current_addr ctx' = current_addr ctx + of_nat (4 * ((length (concat chunks) + 3) div 4))
           \<and> stream_cache_len ctx' = 0"
proof -
  define L where "L = length (concat chunks)"
  define n where "n = (L + 3) div 4"
  define B where "B = concat chunks @ replicate (pad_len L) (0xFF :: byte)"
  have cl: "stream_cache_len ctx \<le> 3" using fresh by simp
  have pe: "pending ctx = []" using fresh by (simp add: pending_def)
  from stream_all_ok[where p = p and tr = tr, OF ok len cl lc]
  obtain ctx' w where r: "stream_all p chunks (ctx, tr) = (BOOT_PORT_OK, ctx', tr @ w)"
    and c: "contiguous (current_addr ctx) w"
    and fb: "flash_bytes w = B"
    and z: "stream_cache_len ctx' = 0"
    and cur: "current_addr ctx' = current_addr ctx + of_nat (length (flash_bytes w))"
    unfolding pe B_def L_def by auto
  have lB: "length B = 4 * n" unfolding B_def n_def using pad_total[of L] by (simp add: L_def)
  have dB: "4 dvd length B" unfolding lB by simp
  have nB: "length B div 4 = n" unfolding lB by simp
  have pw: "programmed_words w
              = map (\<lambda>k. (current_addr ctx + of_nat (4 * k), take 4 (drop (4 * k) B))) [0..<n]"
    unfolding contiguous_words[OF c] fb fpw_map[OF dB] nB by (rule refl)
  have cc: "concat (map snd (programmed_words w)) = B"
    unfolding contiguous_words[OF c] fb by (rule fpw_concat[OF dB])
  show ?thesis
  proof (intro exI conjI)
    show "stream_all p chunks (ctx, tr) = (BOOT_PORT_OK, ctx', tr @ w)" by (rule r)
    show "\<forall>e\<in>set w. is_flash_write e" by (rule contiguous_flash_only[OF c])
    show "length (programmed_words w) = (length (concat chunks) + 3) div 4"
      unfolding pw by (simp add: n_def L_def)
    show "\<forall>(a, bs)\<in>set (programmed_words w). 4 dvd unat a \<and> length bs = 4"
    proof -
      have "4 dvd unat (current_addr ctx + of_nat (4 * k)) \<and> length (take 4 (drop (4 * k) B)) = 4"
        if "k < n" for k
      proof
        show "4 dvd unat (current_addr ctx + of_nat (4 * k))"
          by (rule dvd4_unat_add[OF al]) simp
        show "length (take 4 (drop (4 * k) B)) = 4" using that by (simp add: lB)
      qed
      then show ?thesis unfolding pw by auto
    qed
    show "map fst (programmed_words w)
            = map (\<lambda>k. current_addr ctx + of_nat (4 * k)) [0..<(length (concat chunks) + 3) div 4]"
      unfolding pw by (simp add: n_def L_def comp_def)
    show "take (length (concat chunks)) (concat (map snd (programmed_words w))) = concat chunks"
      unfolding cc B_def by simp
    show "drop (length (concat chunks)) (concat (map snd (programmed_words w)))
            = replicate (pad_len (length (concat chunks))) 0xFF"
      unfolding cc B_def L_def by simp
    show "current_addr ctx' = current_addr ctx + of_nat (4 * ((length (concat chunks) + 3) div 4))"
      unfolding cur fb lB n_def L_def by (rule refl)
    show "stream_cache_len ctx' = 0" by (rule z)
  qed
qed

lemma stream_all_5_2:
  "stream_all (\<lambda>_. BOOT_PORT_OK) [[0xAA, 0xAA, 0xAA, 0xAA, 0xAA], [0xBB, 0xBB]] (idle_ctx, []) =
     (BOOT_PORT_OK,
      idle_ctx\<lparr>current_addr := 0x08010008, stream_cache := [0xAA, 0xBB, 0xBB, 0], stream_cache_len := 0\<rparr>,
      [FlashWrite 0x08010000 [0xAA, 0xAA, 0xAA, 0xAA], FlashWrite 0x08010004 [0xAA, 0xBB, 0xBB, 0xFF]])"
  by (simp add: bootloader_stream_write_def stream_write_carry_def stream_write_aligned_def
      stream_write_tail_def bootloader_stream_flush_def idle_ctx_def bootloader_reset_context_def
      stm32f4_config_def port_defs Let_def fill_stream_cache.simps numeral_3_eq_3)

theorem stream_all_programs_input_witness:
  "stream_cache_len idle_ctx = 0 \<and> length (stream_cache idle_ctx) = 4
   \<and> 4 dvd unat (current_addr idle_ctx)
   \<and> stream_all (\<lambda>_. BOOT_PORT_OK) [[0xAA, 0xAA, 0xAA, 0xAA, 0xAA], [0xBB, 0xBB]] (idle_ctx, [])
       = (BOOT_PORT_OK,
          idle_ctx\<lparr>current_addr := 0x08010008, stream_cache := [0xAA, 0xBB, 0xBB, 0],
                   stream_cache_len := 0\<rparr>,
          [FlashWrite 0x08010000 [0xAA, 0xAA, 0xAA, 0xAA],
           FlashWrite 0x08010004 [0xAA, 0xBB, 0xBB, 0xFF]])
   \<and> programmed_words [FlashWrite 0x08010000 [0xAA, 0xAA, 0xAA, 0xAA],
                        FlashWrite 0x08010004 [0xAA, 0xBB, 0xBB, 0xFF]]
       = [(0x08010000, [0xAA, 0xAA, 0xAA, 0xAA]), (0x08010004, [0xAA, 0xBB, 0xBB, 0xFF])]
   \<and> (length (concat [[0xAA, 0xAA, 0xAA, 0xAA, 0xAA], [0xBB, 0xBB :: byte]]) + 3) div 4 = 2
   \<and> pad_len (length (concat [[0xAA, 0xAA, 0xAA, 0xAA, 0xAA], [0xBB, 0xBB :: byte]])) = 1"
proof -
  have h: "stream_cache_len idle_ctx = 0" "length (stream_cache idle_ctx) = 4"
    "4 dvd unat (current_addr idle_ctx)"
    by (simp_all add: idle_ctx_def bootloader_reset_context_def stm32f4_config_def)
  have l: "\<forall>c\<in>set [[0xAA, 0xAA, 0xAA, 0xAA, 0xAA], [0xBB, 0xBB :: byte]]. length c < 2 ^ 32"
    by simp
  have pw: "programmed_words [FlashWrite 0x08010000 [0xAA, 0xAA, 0xAA, 0xAA],
                        FlashWrite 0x08010004 [0xAA, 0xBB, 0xBB, 0xFF]]
       = [(0x08010000, [0xAA, 0xAA, 0xAA, 0xAA]), (0x08010004, [0xAA, 0xBB, 0xBB, 0xFF])]"
    by (simp add: flash_program_words.simps)
  from stream_all_programs_input[of "\<lambda>_. BOOT_PORT_OK"
      "[[0xAA, 0xAA, 0xAA, 0xAA, 0xAA], [0xBB, 0xBB]]" idle_ctx "[]", OF _ l h]
  show ?thesis using h pw by (simp add: stream_all_5_2 pad_len_def del: stream_all.simps)
qed

section \<open>The two-frame scenario\<close>

lemma frames_bytes:
  "frame_5AA = [0x55, 0xAA, 0, 0, 5, 0, 5, 0xAA, 0xAA, 0xAA, 0xAA, 0xAA, 0x03, 0x57, 0x55, 0x55]"
  "frame_3BB = [0x55, 0xAA, 0, 0, 0, 0, 3, 0xBB, 0xBB, 0xBB, 0x02, 0x34, 0x55, 0x55]"
  by (simp_all add: frame_5AA_def frame_3BB_def data_frame_def codec_checksum_def sum16_def)

lemma run_frames_stm32_step:
  assumes c: "rx_cache ctx = data_frame r pl (codec_checksum pl) @ rest"
    and n: "length pl \<le> BOOT_PAYLOAD_MAX_SIZE cfg" "length pl < 65536" and r: "r < 2 ^ 24"
  shows "bootloader_run_frames_stm32 cfg p (ctx, tr) =
           (case bootloader_handle_payload_stm32 cfg p r (of_nat (length pl))
                   (ctx\<lparr>payload_buf := pl @ drop (length pl) (payload_buf ctx), rx_cache := rest\<rparr>, tr) of
              (status, ctx2, tr2) \<Rightarrow>
                if status \<noteq> BOOT_PORT_OK then (bootloader_reset_context_stm32 cfg ctx2, tr2)
                else bootloader_run_frames_stm32 cfg p (ctx2, tr2))"
  by (subst bootloader_run_frames_stm32.simps) (simp add: frame_at_head[OF c n r])

lemma run_frames_stm32_done:
  "length (rx_cache ctx) < 11 \<Longrightarrow> bootloader_run_frames_stm32 cfg p (ctx, tr) = (ctx, tr)"
  by (subst bootloader_run_frames_stm32.simps) (simp add: short_cache_none)

lemma run_frames_step:
  assumes c: "rx_cache ctx = data_frame r pl (codec_checksum pl) @ rest"
    and n: "length pl \<le> BOOT_PAYLOAD_MAX_SIZE cfg" "length pl < 65536" and r: "r < 2 ^ 24"
  shows "bootloader_run_frames cfg p (ctx, tr) =
           (case bootloader_handle_payload cfg p r (of_nat (length pl))
                   (ctx\<lparr>payload_buf := pl @ drop (length pl) (payload_buf ctx), rx_cache := rest\<rparr>, tr) of
              (status, ctx2, tr2) \<Rightarrow>
                if status \<noteq> BOOT_PORT_OK then (ctx2, tr2)
                else bootloader_run_frames cfg p (ctx2, tr2))"
  by (subst bootloader_run_frames.simps) (simp add: frame_at_head[OF c n r])

lemma run_frames_done:
  "length (rx_cache ctx) < 11 \<Longrightarrow> bootloader_run_frames cfg p (ctx, tr) = (ctx, tr)"
  by (subst bootloader_run_frames.simps) (simp add: short_cache_none)

lemmas stream_defs =
  bootloader_stream_write_def stream_write_carry_def stream_write_aligned_def
  stream_write_tail_def bootloader_stream_flush_def fill_stream_cache.simps

lemma replicate4: "replicate 4 x = [x, x, x, x]"
  by (simp add: numeral_eq_Suc)

lemmas handler_defs =
  bootloader_handle_payload_stm32_def bootloader_handle_payload_def
  bootloader_prepare_download_def flash_range_overflow_def stream_defs
  bootloader_reset_context_def port_defs Let_def replicate4

lemma stm32_two_frames:
  "easy_bootloader_run_stm32 stm32f4_config (\<lambda>_. BOOT_PORT_OK) (frame_5AA @ frame_3BB) (idle_ctx, []) =
     (idle_ctx\<lparr>payload_buf := [0xBB, 0xBB, 0xBB, 0xAA, 0xAA] @ drop 5 (payload_buf idle_ctx),
               current_addr := 0x08010008, stream_cache := [0xAA, 0xBB, 0xBB, 0xBB],
               state := BOOT_STATE_WAIT_FINISH\<rparr>,
      [FlashErase 0x08010000 0xD0000,
       FlashWrite 0x08010000 [0xAA, 0xAA, 0xAA, 0xAA], UartWrite g_boot_ack,
       FlashWrite 0x08010004 [0xAA, 0xBB, 0xBB, 0xBB], UartWrite g_boot_ack])"
proof -
  let ?p = "\<lambda>_ :: event list. BOOT_PORT_OK"
  let ?cfg = stm32f4_config
  define c0 where "c0 = idle_ctx\<lparr>rx_cache := frame_5AA @ frame_3BB\<rparr>"
  let ?A = "[0xAA, 0xAA, 0xAA, 0xAA, 0xAA] :: byte list"
  let ?B = "[0xBB, 0xBB, 0xBB] :: byte list"
  define c0' where "c0' = c0\<lparr>payload_buf := ?A @ drop (length ?A) (payload_buf c0),
                              rx_cache := frame_3BB\<rparr>"
  define c1 where "c1 = c0'\<lparr>current_addr := 0x08010004, stream_cache := [0xAA, 0, 0, 0],
                            stream_cache_len := 1, state := BOOT_STATE_RECEIVING,
                            download_active := True\<rparr>"
  define t1 where "t1 = [FlashErase 0x08010000 0xD0000,
       FlashWrite 0x08010000 [0xAA, 0xAA, 0xAA, 0xAA], UartWrite g_boot_ack]"
  define c1' where "c1' = c1\<lparr>payload_buf := ?B @ drop (length ?B) (payload_buf c1),
                              rx_cache := []\<rparr>"
  define c2 where "c2 = c1'\<lparr>current_addr := 0x08010008, stream_cache := [0xAA, 0xBB, 0xBB, 0xBB],
                            stream_cache_len := 0, state := BOOT_STATE_WAIT_FINISH,
                            download_active := False\<rparr>"
  define t2 where "t2 = t1 @ [FlashWrite 0x08010004 [0xAA, 0xBB, 0xBB, 0xBB], UartWrite g_boot_ack]"
  have sz: "BOOT_PAYLOAD_MAX_SIZE ?cfg = 1002"
    by (simp add: BOOT_PAYLOAD_MAX_SIZE_def stm32f4_config_def BOOT_FRAME_FIXED_SIZE_def)
  have poll: "bootloader_poll_uart ?cfg (frame_5AA @ frame_3BB) idle_ctx = c0"
    by (simp add: bootloader_poll_uart_def c0_def idle_ctx_def bootloader_reset_context_def
        stm32f4_config_def frames_bytes)
  have st: "state c0 \<noteq> BOOT_STATE_WAIT_FINISH" "initialized idle_ctx"
    by (simp_all add: c0_def idle_ctx_def bootloader_reset_context_def)
  have h1: "bootloader_handle_payload_stm32 ?cfg ?p 5 5 (c0', []) = (BOOT_PORT_OK, c1, t1)"
    by (simp add: c0'_def c0_def c1_def t1_def idle_ctx_def stm32f4_config_def handler_defs)
  have h2: "bootloader_handle_payload_stm32 ?cfg ?p 0 3 (c1', t1) = (BOOT_PORT_OK, c2, t2)"
    by (simp add: c1'_def c2_def t2_def c0'_def c0_def c1_def t1_def idle_ctx_def stm32f4_config_def handler_defs)
  have l: "(of_nat (length ?A) :: u16) = 5" "(of_nat (length ?B) :: u16) = 3" by simp_all
  have s1: "bootloader_run_frames_stm32 ?cfg ?p (c0, []) = bootloader_run_frames_stm32 ?cfg ?p (c1, t1)"
  proof -
    have a: "rx_cache c0 = data_frame 5 ?A (codec_checksum ?A) @ frame_3BB"
      by (simp add: c0_def frame_5AA_def)
    have b: "length ?A \<le> BOOT_PAYLOAD_MAX_SIZE ?cfg" "length ?A < 65536" "(5::u32) < 2 ^ 24"
      by (simp_all add: sz)
    show ?thesis
      unfolding run_frames_stm32_step[OF a b] c0'_def[symmetric] l h1 by simp
  qed
  have s2: "bootloader_run_frames_stm32 ?cfg ?p (c1, t1) = bootloader_run_frames_stm32 ?cfg ?p (c2, t2)"
  proof -
    have a: "rx_cache c1 = data_frame 0 ?B (codec_checksum ?B) @ []"
      by (simp add: c1_def c0'_def frame_3BB_def)
    have b: "length ?B \<le> BOOT_PAYLOAD_MAX_SIZE ?cfg" "length ?B < 65536" "(0::u32) < 2 ^ 24"
      by (simp_all add: sz)
    show ?thesis
      unfolding run_frames_stm32_step[OF a b] c1'_def[symmetric] l h2 by simp
  qed
  have s3: "bootloader_run_frames_stm32 ?cfg ?p (c2, t2) = (c2, t2)"
    by (rule run_frames_stm32_done) (simp add: c2_def c1'_def)
  have r: "easy_bootloader_run_stm32 ?cfg ?p (frame_5AA @ frame_3BB) (idle_ctx, []) = (c2, t2)"
    using st by (simp add: easy_bootloader_run_stm32_def poll s1 s2 s3)
  show ?thesis unfolding r
    by (simp add: c2_def c1'_def c1_def c0'_def c0_def t2_def t1_def idle_ctx_def
        bootloader_reset_context_def)
qed


lemma v1_two_frames:
  "easy_bootloader_run ch32v307_config (\<lambda>_. BOOT_PORT_OK) (frame_5AA @ frame_3BB) (idle_ctx_ch32, []) =
     (idle_ctx_ch32\<lparr>payload_buf := [0xBB, 0xBB, 0xBB, 0xAA, 0xAA] @ drop 5 (payload_buf idle_ctx_ch32),
                    current_addr := 0x6008, stream_cache := [0xAA, 0xBB, 0xBB, 0xBB]\<rparr>,
      [FlashErase 0x6000 0x39800,
       FlashWrite 0x6000 [0xAA, 0xAA, 0xAA, 0xAA], UartWrite g_boot_ack,
       FlashWrite 0x6004 [0xAA, 0xBB, 0xBB, 0xBB],
       FlashErase 0x3F800 0x800, FlashWrite 0x3F800 [2, 0, 0, 0],
       FlashWrite 0x3F804 [0, 0, 0, 0], FlashWrite 0x3F808 [0, 0, 0, 0],
       UartWrite g_boot_ack, SystemReset])"
proof -
  let ?p = "\<lambda>_ :: event list. BOOT_PORT_OK"
  let ?cfg = ch32v307_config
  let ?A = "[0xAA, 0xAA, 0xAA, 0xAA, 0xAA] :: byte list"
  let ?B = "[0xBB, 0xBB, 0xBB] :: byte list"
  define c0 where "c0 = idle_ctx_ch32\<lparr>rx_cache := frame_5AA @ frame_3BB\<rparr>"
  define c0' where "c0' = c0\<lparr>payload_buf := ?A @ drop (length ?A) (payload_buf c0),
                              rx_cache := frame_3BB\<rparr>"
  define c1 where "c1 = c0'\<lparr>current_addr := 0x6004, stream_cache := [0xAA, 0, 0, 0],
                            stream_cache_len := 1, download_active := True\<rparr>"
  define t1 where "t1 = [FlashErase 0x6000 0x39800,
       FlashWrite 0x6000 [0xAA, 0xAA, 0xAA, 0xAA], UartWrite g_boot_ack]"
  define c1' where "c1' = c1\<lparr>payload_buf := ?B @ drop (length ?B) (payload_buf c1),
                              rx_cache := []\<rparr>"
  define c2 where "c2 = c1'\<lparr>current_addr := 0x6008, stream_cache := [0xAA, 0xBB, 0xBB, 0xBB],
                            stream_cache_len := 0, download_active := False\<rparr>"
  define t2 where "t2 = t1 @ [FlashWrite 0x6004 [0xAA, 0xBB, 0xBB, 0xBB],
       FlashErase 0x3F800 0x800, FlashWrite 0x3F800 [2, 0, 0, 0],
       FlashWrite 0x3F804 [0, 0, 0, 0], FlashWrite 0x3F808 [0, 0, 0, 0],
       UartWrite g_boot_ack, SystemReset]"
  have sz: "BOOT_PAYLOAD_MAX_SIZE ?cfg = 1013"
    by (simp add: BOOT_PAYLOAD_MAX_SIZE_def ch32v307_config_def BOOT_FRAME_FIXED_SIZE_def)
  have poll: "bootloader_poll_uart ?cfg (frame_5AA @ frame_3BB) idle_ctx_ch32 = c0"
    by (simp add: bootloader_poll_uart_def c0_def idle_ctx_ch32_def bootloader_reset_context_def
        ch32v307_config_def frames_bytes)
  have st: "initialized idle_ctx_ch32"
    by (simp add: idle_ctx_ch32_def bootloader_reset_context_def)
  have h1: "bootloader_handle_payload ?cfg ?p 5 5 (c0', []) = (BOOT_PORT_OK, c1, t1)"
    by (simp add: c0'_def c0_def c1_def t1_def idle_ctx_ch32_def ch32v307_config_def handler_defs)
  have h2: "bootloader_handle_payload ?cfg ?p 0 3 (c1', t1) = (BOOT_PORT_OK, c2, t2)"
    by (simp add: c1'_def c2_def t2_def c0'_def c0_def c1_def t1_def idle_ctx_ch32_def
        ch32v307_config_def handler_defs bootloader_write_flag_region_def BOOT_FLAG_ADDR_def
        BOOT_VERSION_ADDR_def BOOT_DATE_ADDR_def BOOT_FLAG_APP_def word_buf_def)
  have l: "(of_nat (length ?A) :: u16) = 5" "(of_nat (length ?B) :: u16) = 3" by simp_all
  have s1: "bootloader_run_frames ?cfg ?p (c0, []) = bootloader_run_frames ?cfg ?p (c1, t1)"
  proof -
    have a: "rx_cache c0 = data_frame 5 ?A (codec_checksum ?A) @ frame_3BB"
      by (simp add: c0_def frame_5AA_def)
    have b: "length ?A \<le> BOOT_PAYLOAD_MAX_SIZE ?cfg" "length ?A < 65536" "(5::u32) < 2 ^ 24"
      by (simp_all add: sz)
    show ?thesis
      unfolding run_frames_step[OF a b] c0'_def[symmetric] l h1 by simp
  qed
  have s2: "bootloader_run_frames ?cfg ?p (c1, t1) = bootloader_run_frames ?cfg ?p (c2, t2)"
  proof -
    have a: "rx_cache c1 = data_frame 0 ?B (codec_checksum ?B) @ []"
      by (simp add: c1_def c0'_def frame_3BB_def)
    have b: "length ?B \<le> BOOT_PAYLOAD_MAX_SIZE ?cfg" "length ?B < 65536" "(0::u32) < 2 ^ 24"
      by (simp_all add: sz)
    show ?thesis
      unfolding run_frames_step[OF a b] c1'_def[symmetric] l h2 by simp
  qed
  have s3: "bootloader_run_frames ?cfg ?p (c2, t2) = (c2, t2)"
    by (rule run_frames_done) (simp add: c2_def c1'_def)
  have r: "easy_bootloader_run ?cfg ?p (frame_5AA @ frame_3BB) (idle_ctx_ch32, []) = (c2, t2)"
    using st by (simp add: easy_bootloader_run_def poll s1 s2 s3)
  show ?thesis unfolding r
    by (simp add: c2_def c1'_def c1_def c0'_def c0_def t2_def t1_def idle_ctx_ch32_def
        bootloader_reset_context_def)
qed

text \<open>
  C5. From the idle context, on a port whose calls succeed, the two DataFrames
  (remaining = 5 with five bytes AA, then remaining = 0 with three bytes BB) arriving in one
  poll. STM32F4 copy: the region is erased, the words AA AA AA AA and AA BB BB BB are
  programmed at the region start and 4 further, the cursor ends 8 past the region start with
  an empty carry, the state is BOOT_STATE_WAIT_FINISH, and an Ack is sent after each of the
  two frames. easy_bootloader_compoents, on the CH32V307: the same two words, the cursor 8
  past the region start, an Ack after the first frame; after the second frame the flag
  region is erased and written (flag, version, date), then a second Ack is sent, then the
  system is reset.
\<close>

theorem two_frames_ack_after_each:
  "snd (easy_bootloader_run_stm32 stm32f4_config (\<lambda>_. BOOT_PORT_OK) (frame_5AA @ frame_3BB)
          (idle_ctx, []))
     = [FlashErase 0x08010000 0xD0000,
        FlashWrite 0x08010000 [0xAA, 0xAA, 0xAA, 0xAA], UartWrite g_boot_ack,
        FlashWrite 0x08010004 [0xAA, 0xBB, 0xBB, 0xBB], UartWrite g_boot_ack]
   \<and> programmed_words (snd (easy_bootloader_run_stm32 stm32f4_config (\<lambda>_. BOOT_PORT_OK)
          (frame_5AA @ frame_3BB) (idle_ctx, [])))
     = [(0x08010000, [0xAA, 0xAA, 0xAA, 0xAA]), (0x08010004, [0xAA, 0xBB, 0xBB, 0xBB])]
   \<and> current_addr (fst (easy_bootloader_run_stm32 stm32f4_config (\<lambda>_. BOOT_PORT_OK)
          (frame_5AA @ frame_3BB) (idle_ctx, [])))
     = current_addr idle_ctx + 8
   \<and> stream_cache_len (fst (easy_bootloader_run_stm32 stm32f4_config (\<lambda>_. BOOT_PORT_OK)
          (frame_5AA @ frame_3BB) (idle_ctx, []))) = 0
   \<and> state (fst (easy_bootloader_run_stm32 stm32f4_config (\<lambda>_. BOOT_PORT_OK)
          (frame_5AA @ frame_3BB) (idle_ctx, []))) = BOOT_STATE_WAIT_FINISH
   \<and> snd (easy_bootloader_run ch32v307_config (\<lambda>_. BOOT_PORT_OK) (frame_5AA @ frame_3BB)
          (idle_ctx_ch32, []))
     = [FlashErase 0x6000 0x39800,
        FlashWrite 0x6000 [0xAA, 0xAA, 0xAA, 0xAA], UartWrite g_boot_ack,
        FlashWrite 0x6004 [0xAA, 0xBB, 0xBB, 0xBB],
        FlashErase 0x3F800 0x800, FlashWrite 0x3F800 [2, 0, 0, 0],
        FlashWrite 0x3F804 [0, 0, 0, 0], FlashWrite 0x3F808 [0, 0, 0, 0],
        UartWrite g_boot_ack, SystemReset]
   \<and> current_addr (fst (easy_bootloader_run ch32v307_config (\<lambda>_. BOOT_PORT_OK)
          (frame_5AA @ frame_3BB) (idle_ctx_ch32, [])))
     = current_addr idle_ctx_ch32 + 8
   \<and> stream_cache_len (fst (easy_bootloader_run ch32v307_config (\<lambda>_. BOOT_PORT_OK)
          (frame_5AA @ frame_3BB) (idle_ctx_ch32, []))) = 0"
  unfolding stm32_two_frames v1_two_frames
  by (simp add: idle_ctx_def idle_ctx_ch32_def bootloader_reset_context_def stm32f4_config_def
      ch32v307_config_def flash_program_words.simps)

text \<open>
  The scenario as the specification has it (one Ack, after the first frame, none after the
  second) does not hold in either copy: two Acks are sent, and in the STM32F4 copy the
  second one is the last event of the poll.
\<close>

theorem two_frames_one_ack_counterexample:
  "length (acks (snd (easy_bootloader_run_stm32 stm32f4_config (\<lambda>_. BOOT_PORT_OK)
                        (frame_5AA @ frame_3BB) (idle_ctx, [])))) = 2
   \<and> last (snd (easy_bootloader_run_stm32 stm32f4_config (\<lambda>_. BOOT_PORT_OK)
                  (frame_5AA @ frame_3BB) (idle_ctx, []))) = UartWrite g_boot_ack
   \<and> length (acks (snd (easy_bootloader_run ch32v307_config (\<lambda>_. BOOT_PORT_OK)
                        (frame_5AA @ frame_3BB) (idle_ctx_ch32, [])))) = 2"
  unfolding stm32_two_frames v1_two_frames by (simp add: acks_def)

section \<open>FinishFrames outside BOOT_STATE_WAIT_FINISH: results\<close>

lemma no_frame_none:
  assumes "\<And>k. \<not> head_accepts (drop k (rx_cache ctx))"
  shows "fst (bootloader_try_extract_frame cfg ctx) = None
         \<and> (snd (bootloader_try_extract_frame cfg ctx))\<lparr>rx_cache := []\<rparr> = ctx\<lparr>rx_cache := []\<rparr>"
  using assms
proof (induction "length (rx_cache ctx)" arbitrary: ctx rule: less_induct)
  case less
  have IH: "fst (bootloader_try_extract_frame cfg (bootloader_consume_cache n ctx)) = None
         \<and> (snd (bootloader_try_extract_frame cfg (bootloader_consume_cache n ctx)))\<lparr>rx_cache := []\<rparr>
             = ctx\<lparr>rx_cache := []\<rparr>"
    if "0 < n" "n < length (rx_cache ctx)" for n
  proof -
    have e: "bootloader_consume_cache n ctx = ctx\<lparr>rx_cache := drop n (rx_cache ctx)\<rparr>"
      using that by (simp add: bootloader_consume_cache_def)
    have s: "length (rx_cache (ctx\<lparr>rx_cache := drop n (rx_cache ctx)\<rparr>)) < length (rx_cache ctx)"
      using that by simp
    have h: "\<not> head_accepts (drop k (rx_cache (ctx\<lparr>rx_cache := drop n (rx_cache ctx)\<rparr>)))" for k
      using less.prems[of "k + n"] by simp
    from less.hyps[OF s h] show ?thesis unfolding e by simp
  qed
  have h0: "\<not> head_accepts (rx_cache ctx)" using less.prems[of 0] by simp
  show ?case
    apply (subst (1 2) bootloader_try_extract_frame.simps)
    using h0 IH[of 1] IH[of 2]
    apply (auto simp: Let_def head_accepts_def cached_packet_len_def cached_received_crc_def
        cached_tail_ok_def BOOT_FRAME_FIXED_SIZE_def)
    done
qed

lemma sum16_le: "unat (foldl (\<lambda>crc b. crc + ucast b) (a::u16) (bs::byte list)) \<le> unat a + 255 * length bs"
proof (induction bs arbitrary: a)
  case Nil
  show ?case by simp
next
  case (Cons b bs)
  have "unat (a + ucast b) \<le> unat a + unat (ucast b :: u16)"
    by (simp add: unat_word_ariths)
  also have "\<dots> \<le> unat a + 255" using byte_lt[of b] by (simp add: unat_ucast_byte16)
  finally have "unat (a + ucast b) \<le> unat a + 255" .
  with Cons[of "a + ucast b"] show ?case by simp
qed

lemma finish_no_frame:
  "\<not> head_accepts (drop k [0x55, 0xAA, b2, b3, b4, b5, b6, b7, b8, b9, 0xFF, 0xFD, 0x55, 0x55])"
proof
  let ?F = "[0x55, 0xAA, b2, b3, b4, b5, b6, b7, b8, b9, 0xFF, 0xFD, 0x55, 0x55] :: byte list"
  assume h: "head_accepts (drop k ?F)"
  define n where "n = unat (cached_packet_len (drop k ?F))"
  from h have len: "11 + n \<le> length (drop k ?F)"
    and tail: "drop k ?F ! (7 + n + 2) = 0x55" "drop k ?F ! (7 + n + 3) = 0x55"
    and crc: "calc_crc (drop k ?F) (7 + n)
                = push_bit 8 (ucast (drop k ?F ! (7 + n))) OR ucast (drop k ?F ! (7 + n + 1))"
    by (simp_all add: head_accepts_def cached_tail_ok_def cached_received_crc_def n_def
        BOOT_FRAME_FIXED_SIZE_def)
  have kn: "k + n \<le> 3" using len by simp
  define m where "m = k + n"
  have m3: "m \<le> 3" using kn by (simp add: m_def)
  have t: "?F ! (m + 9) = 0x55" "?F ! (m + 10) = 0x55"
    using tail kn by (simp_all add: m_def add.assoc)
  have "m = 0 \<or> m = 1 \<or> m = 2 \<or> m = 3" using m3 by linarith
  then have m: "m = 3" using t by (elim disjE) simp_all
  have e: "k + (7 + n) = 10" "k + (7 + n + 1) = 11" using m by (simp_all add: m_def)
  have kl: "k \<le> length ?F" using kn by simp
  have c1: "drop k ?F ! (7 + n) = 0xFF" "drop k ?F ! (7 + n + 1) = 0xFD"
    unfolding nth_drop[OF kl] e by simp_all
  have "calc_crc (drop k ?F) (7 + n) = sum16 (take (7 + n - 5) (drop 5 (drop k ?F)))"
    by (rule calc_crc_sum16) (use len in simp)
  then have "unat (calc_crc (drop k ?F) (7 + n)) \<le> 255 * 5"
    using sum16_le[of 0 "take (7 + n - 5) (drop 5 (drop k ?F))"] kn
    by (simp add: sum16_def)
  moreover have "unat (calc_crc (drop k ?F) (7 + n)) = 65533"
    unfolding crc c1 by simp
  ultimately show False by simp
qed


lemma run_frames_stm32_none:
  assumes "\<And>k. \<not> head_accepts (drop k (rx_cache ctx))"
  shows "snd (bootloader_run_frames_stm32 cfg p (ctx, tr)) = tr
         \<and> (fst (bootloader_run_frames_stm32 cfg p (ctx, tr)))\<lparr>rx_cache := []\<rparr> = ctx\<lparr>rx_cache := []\<rparr>"
proof -
  obtain r c where e: "bootloader_try_extract_frame cfg ctx = (r, c)"
    by (cases "bootloader_try_extract_frame cfg ctx")
  from no_frame_none[OF assms, of cfg] e
  have r: "r = None" and c: "c\<lparr>rx_cache := []\<rparr> = ctx\<lparr>rx_cache := []\<rparr>" by simp_all
  have "bootloader_run_frames_stm32 cfg p (ctx, tr) = (c, tr)"
    by (subst bootloader_run_frames_stm32.simps) (simp add: e r)
  then show ?thesis using c by simp
qed

lemma length_finish_frame: "length (finish_frame version date) = 14"
  by (simp add: finish_frame_def)

lemma receiving_ctx_reached:
  "easy_bootloader_run_stm32 stm32f4_config (\<lambda>_. BOOT_PORT_OK) frame_5AA (idle_ctx, []) =
     (receiving_ctx,
      [FlashErase 0x08010000 0xD0000, FlashWrite 0x08010000 [0xAA, 0xAA, 0xAA, 0xAA],
       UartWrite g_boot_ack])"
proof -
  let ?p = "\<lambda>_ :: event list. BOOT_PORT_OK"
  let ?cfg = stm32f4_config
  let ?A = "[0xAA, 0xAA, 0xAA, 0xAA, 0xAA] :: byte list"
  let ?t = "[FlashErase 0x08010000 0xD0000, FlashWrite 0x08010000 [0xAA, 0xAA, 0xAA, 0xAA],
       UartWrite g_boot_ack]"
  define c0 where "c0 = idle_ctx\<lparr>rx_cache := frame_5AA\<rparr>"
  define c0' where "c0' = c0\<lparr>payload_buf := ?A @ drop (length ?A) (payload_buf c0), rx_cache := []\<rparr>"
  have sz: "BOOT_PAYLOAD_MAX_SIZE ?cfg = 1002"
    by (simp add: BOOT_PAYLOAD_MAX_SIZE_def stm32f4_config_def BOOT_FRAME_FIXED_SIZE_def)
  have poll: "bootloader_poll_uart ?cfg frame_5AA idle_ctx = c0"
    by (simp add: bootloader_poll_uart_def c0_def idle_ctx_def bootloader_reset_context_def
        stm32f4_config_def frames_bytes)
  have st: "state c0 \<noteq> BOOT_STATE_WAIT_FINISH" "initialized idle_ctx"
    by (simp_all add: c0_def idle_ctx_def bootloader_reset_context_def)
  have h1: "bootloader_handle_payload_stm32 ?cfg ?p 5 5 (c0', []) = (BOOT_PORT_OK, receiving_ctx, ?t)"
    by (simp add: c0'_def c0_def receiving_ctx_def idle_ctx_def stm32f4_config_def handler_defs)
  have l: "(of_nat (length ?A) :: u16) = 5" by simp
  have a: "rx_cache c0 = data_frame 5 ?A (codec_checksum ?A) @ []"
    by (simp add: c0_def frame_5AA_def)
  have b: "length ?A \<le> BOOT_PAYLOAD_MAX_SIZE ?cfg" "length ?A < 65536" "(5::u32) < 2 ^ 24"
    by (simp_all add: sz)
  have s1: "bootloader_run_frames_stm32 ?cfg ?p (c0, [])
              = bootloader_run_frames_stm32 ?cfg ?p (receiving_ctx, ?t)"
    unfolding run_frames_stm32_step[OF a b] c0'_def[symmetric] l h1 by simp
  have s2: "bootloader_run_frames_stm32 ?cfg ?p (receiving_ctx, ?t) = (receiving_ctx, ?t)"
    by (rule run_frames_stm32_done)
       (simp add: receiving_ctx_def idle_ctx_def bootloader_reset_context_def)
  show ?thesis using st by (simp add: easy_bootloader_run_stm32_def poll s1 s2)
qed

text \<open>
  C4. A FinishFrame, whatever its version and date, arriving on an empty receive cache while
  the state is not BOOT_STATE_WAIT_FINISH (BOOT_STATE_IDLE or BOOT_STATE_RECEIVING), in the
  STM32F4 copy. easy_bootloader_run looks for a FinishFrame only in BOOT_STATE_WAIT_FINISH;
  here the bytes go to the DataFrame codec, which finds no DataFrame in them. So the poll
  adds no event (no flash access, no Ack, no reset) and returns the context it was given,
  the receive cache apart: state, cursor, carry and download_active are kept, nothing is
  reinitialized. bootloader_handle_finish_frame, were it called in such a state, would
  return BOOT_PORT_ERROR and leave context and trace alone; easy_bootloader_run calls it in
  BOOT_STATE_WAIT_FINISH only.
\<close>

theorem finish_frame_outside_wait_finish:
  assumes i: "initialized ctx"
    and s: "state ctx \<noteq> BOOT_STATE_WAIT_FINISH"
    and e: "rx_cache ctx = []"
    and sz: "BOOT_FINISH_FRAME_LEN \<le> BOOT_PACKET_MAX_SIZE cfg"
  shows "(\<exists>c'. easy_bootloader_run_stm32 cfg p (finish_frame version date) (ctx, tr)
                  = (ctx\<lparr>rx_cache := c'\<rparr>, tr))
         \<and> bootloader_handle_finish_frame cfg p version date (ctx, tr) = (BOOT_PORT_ERROR, ctx, tr)"
proof
  let ?F = "finish_frame version date"
  let ?c = "ctx\<lparr>rx_cache := ?F\<rparr>"
  have poll: "bootloader_poll_uart cfg ?F ctx = ?c"
    using e sz by (simp add: bootloader_poll_uart_def BOOT_FINISH_FRAME_LEN_def length_finish_frame)
  have nf: "\<not> head_accepts (drop k (rx_cache ?c))" for k
    by (simp add: finish_frame_def finish_no_frame)
  define R where "R = bootloader_run_frames_stm32 cfg p (?c, tr)"
  from run_frames_stm32_none[of ?c cfg p tr, OF nf]
  have r: "snd R = tr" "(fst R)\<lparr>rx_cache := []\<rparr> = ctx"
    using e by (simp_all add: R_def)
  have "fst R = ((fst R)\<lparr>rx_cache := []\<rparr>)\<lparr>rx_cache := rx_cache (fst R)\<rparr>" by simp
  then have f: "fst R = ctx\<lparr>rx_cache := rx_cache (fst R)\<rparr>" unfolding r(2) .
  have "easy_bootloader_run_stm32 cfg p ?F (ctx, tr) = R"
    using i s by (simp add: easy_bootloader_run_stm32_def poll R_def)
  also have "R = (ctx\<lparr>rx_cache := rx_cache (fst R)\<rparr>, tr)"
    using f r(1) by (cases R) simp
  finally show "\<exists>c'. easy_bootloader_run_stm32 cfg p ?F (ctx, tr) = (ctx\<lparr>rx_cache := c'\<rparr>, tr)"
    by (rule exI)
  show "bootloader_handle_finish_frame cfg p version date (ctx, tr) = (BOOT_PORT_ERROR, ctx, tr)"
    using s by (simp add: bootloader_handle_finish_frame_def)
qed

theorem finish_frame_outside_wait_finish_witness:
  "initialized receiving_ctx \<and> state receiving_ctx = BOOT_STATE_RECEIVING
   \<and> rx_cache receiving_ctx = []
   \<and> BOOT_FINISH_FRAME_LEN \<le> BOOT_PACKET_MAX_SIZE stm32f4_config
   \<and> snd (easy_bootloader_run_stm32 stm32f4_config (\<lambda>_. BOOT_PORT_OK)
            (finish_frame 0x01020304 0x05060708) (receiving_ctx, [])) = []
   \<and> state (fst (easy_bootloader_run_stm32 stm32f4_config (\<lambda>_. BOOT_PORT_OK)
            (finish_frame 0x01020304 0x05060708) (receiving_ctx, []))) = BOOT_STATE_RECEIVING
   \<and> current_addr (fst (easy_bootloader_run_stm32 stm32f4_config (\<lambda>_. BOOT_PORT_OK)
            (finish_frame 0x01020304 0x05060708) (receiving_ctx, []))) = 0x08010004
   \<and> stream_cache_len (fst (easy_bootloader_run_stm32 stm32f4_config (\<lambda>_. BOOT_PORT_OK)
            (finish_frame 0x01020304 0x05060708) (receiving_ctx, []))) = 1
   \<and> download_active (fst (easy_bootloader_run_stm32 stm32f4_config (\<lambda>_. BOOT_PORT_OK)
            (finish_frame 0x01020304 0x05060708) (receiving_ctx, [])))
   \<and> bootloader_handle_finish_frame stm32f4_config (\<lambda>_. BOOT_PORT_OK) 0x01020304 0x05060708
        (receiving_ctx, []) = (BOOT_PORT_ERROR, receiving_ctx, [])"
proof -
  have h: "initialized receiving_ctx" "state receiving_ctx = BOOT_STATE_RECEIVING"
    "rx_cache receiving_ctx = []" "current_addr receiving_ctx = 0x08010004"
    "stream_cache_len receiving_ctx = 1" "download_active receiving_ctx"
    by (simp_all add: receiving_ctx_def idle_ctx_def bootloader_reset_context_def)
  have z: "BOOT_FINISH_FRAME_LEN \<le> BOOT_PACKET_MAX_SIZE stm32f4_config"
    by (simp add: BOOT_FINISH_FRAME_LEN_def stm32f4_config_def)
  have s: "state receiving_ctx \<noteq> BOOT_STATE_WAIT_FINISH" by (simp add: h(2))
  from finish_frame_outside_wait_finish[of receiving_ctx stm32f4_config "\<lambda>_. BOOT_PORT_OK"
      "0x01020304" "0x05060708" "[]", OF h(1) s h(3) z]
  show ?thesis using h z by auto
qed

lemma finish_frame_bytes:
  "finish_frame 1 0x20251201 =
     [0x55, 0xAA, 0, 0, 0, 1, 0x20, 0x25, 0x12, 0x01, 0xFF, 0xFD, 0x55, 0x55]"
  by (simp add: finish_frame_def)

text \<open>
  The FinishFrame with version 1 and date 0x20251201 is one the FinishFrame parser accepts.
  Arriving in the middle of a download (state BOOT_STATE_RECEIVING, cursor 4 past the region
  start, one byte in the carry), it is read by the DataFrame codec as the start of a frame
  of 0x0120 payload bytes that is not wholly there yet: the 14 bytes stay in the cache, no
  event is added, and state, cursor, carry and download_active are what they were, not the
  initial values bootloader_reset_context would give.
\<close>

theorem finish_frame_not_reinitialized_counterexample:
  "fst (bootloader_try_extract_finish_frame
          (receiving_ctx\<lparr>rx_cache := finish_frame 1 0x20251201\<rparr>)) = Some (1, 0x20251201)
   \<and> easy_bootloader_run_stm32 stm32f4_config (\<lambda>_. BOOT_PORT_OK) (finish_frame 1 0x20251201)
        (receiving_ctx, [])
       = (receiving_ctx\<lparr>rx_cache := finish_frame 1 0x20251201\<rparr>, [])
   \<and> state receiving_ctx = BOOT_STATE_RECEIVING
   \<and> current_addr receiving_ctx = 0x08010004
   \<and> stream_cache_len receiving_ctx = 1
   \<and> download_active receiving_ctx
   \<and> state (bootloader_reset_context_stm32 stm32f4_config receiving_ctx) = BOOT_STATE_IDLE
   \<and> current_addr (bootloader_reset_context_stm32 stm32f4_config receiving_ctx) = 0x08010000
   \<and> stream_cache_len (bootloader_reset_context_stm32 stm32f4_config receiving_ctx) = 0"
proof -
  let ?c = "receiving_ctx\<lparr>rx_cache := finish_frame 1 0x20251201\<rparr>"
  have h: "initialized receiving_ctx" "state receiving_ctx = BOOT_STATE_RECEIVING"
    "rx_cache receiving_ctx = []" "current_addr receiving_ctx = 0x08010004"
    "stream_cache_len receiving_ctx = 1" "download_active receiving_ctx"
    by (simp_all add: receiving_ctx_def idle_ctx_def bootloader_reset_context_def)
  have a: "fst (bootloader_try_extract_finish_frame ?c) = Some (1, 0x20251201)"
    by (subst bootloader_try_extract_finish_frame.simps)
       (simp add: finish_frame_bytes BOOT_FINISH_FRAME_LEN_def be_u32_def)
  have poll: "bootloader_poll_uart stm32f4_config (finish_frame 1 0x20251201) receiving_ctx = ?c"
    by (simp add: bootloader_poll_uart_def h(3) stm32f4_config_def finish_frame_bytes)
  have x: "bootloader_try_extract_frame stm32f4_config ?c = (None, ?c)"
    by (subst bootloader_try_extract_frame.simps)
       (simp add: finish_frame_bytes BOOT_FRAME_FIXED_SIZE_def BOOT_PAYLOAD_MAX_SIZE_def
          stm32f4_config_def Let_def)
  have r: "bootloader_run_frames_stm32 stm32f4_config (\<lambda>_. BOOT_PORT_OK) (?c, []) = (?c, [])"
    by (subst bootloader_run_frames_stm32.simps) (simp add: x)
  have b: "easy_bootloader_run_stm32 stm32f4_config (\<lambda>_. BOOT_PORT_OK) (finish_frame 1 0x20251201)
        (receiving_ctx, []) = (?c, [])"
    using h by (simp add: easy_bootloader_run_stm32_def poll r)
  have c: "state (bootloader_reset_context_stm32 stm32f4_config receiving_ctx) = BOOT_STATE_IDLE"
    "current_addr (bootloader_reset_context_stm32 stm32f4_config receiving_ctx) = 0x08010000"
    "stream_cache_len (bootloader_reset_context_stm32 stm32f4_config receiving_ctx) = 0"
    by (simp_all add: bootloader_reset_context_stm32_def bootloader_reset_context_def
        stm32f4_config_def)
  show ?thesis using a b c h by simp
qed

section \<open>Flash stream writer: the invariant, whatever the calls return\<close>














end
